theory Spec2Isabelle
  imports Main "HOL-Library.Option_ord"
begin

section \<open>Exceptions\<close>

text \<open>The Python exceptions that the modelled code can raise; \<open>Inl\<close> of a sum is a raise.\<close>

datatype error =
  KeyError | ValueError | TypeError | IndexError | AssertionError | RecursionError
  | StopIteration

section \<open>Records of the execution stream\<close>

text \<open>
  Modelled from the spec: the record classes (\<open>Record\<close>, \<open>Records\<close>) are not part of the
  sources at hand.  The data model describes a row as a mapping from named columns to
  integer timestamps or absent, so a row is an association list from column names to
  integers, \<open>columns\<close> is the set of its keys and \<open>get\<close> on an absent column is absent.
\<close>

type_synonym Record = "(string \<times> int) list"

definition columns :: "Record \<Rightarrow> string set" where
  "columns r = fst ` set r"

definition get :: "Record \<Rightarrow> string \<Rightarrow> int option" where
  "get r k = map_of r k"

text \<open>\<open>RecordsSource\<close>: the three record streams the binder reads.\<close>

record RecordsSource =
  callback_records :: "Record list"
  inter_proc_comm_records :: "Record list"
  intra_proc_comm_records :: "Record list"

section \<open>Tables\<close>

text \<open>
  The tables are pandas data frames; pandas is a library, not part of the sources.  A frame
  is modelled by what the code uses of it: the list of its column names and its rows, each
  row carrying its index label and a value for every column.  A value is an integer, a
  string or NaN.  The tables of \<open>Ros2DataModel\<close> are taken as they are after
  \<open>reset_index()\<close>: the index has become a column and the labels are 0, 1, 2, ...
\<close>

datatype cell = I int | S string | NaN

type_synonym Row = "(string \<times> cell) list"

record DataFrame =
  df_columns :: "string list"
  df_rows :: "(nat \<times> Row) list"

definition empty_frame :: "string list \<Rightarrow> DataFrame" where
  \<comment> \<open>\<open>pd.DataFrame(columns=columns)\<close>\<close>
  "empty_frame cols = \<lparr>df_columns = cols, df_rows = []\<rparr>"

definition at :: "Row \<Rightarrow> string \<Rightarrow> error + cell" where
  \<comment> \<open>\<open>row[column]\<close>\<close>
  "at row c = (case map_of row c of None \<Rightarrow> Inl KeyError | Some v \<Rightarrow> Inr v)"

definition range_index :: "Row list \<Rightarrow> (nat \<times> Row) list" where
  "range_index rs = zip [0..<length rs] rs"

definition reset_index :: "DataFrame \<Rightarrow> DataFrame" where
  \<comment> \<open>\<open>reset_index(drop=True)\<close>\<close>
  "reset_index df = df\<lparr>df_rows := range_index (map snd (df_rows df))\<rparr>"

definition drop_columns_df :: "DataFrame \<Rightarrow> string list \<Rightarrow> DataFrame" where
  \<comment> \<open>\<open>df.drop(columns, axis=1)\<close> for the columns the frame has\<close>
  "drop_columns_df df cs =
     \<lparr>df_columns = filter (\<lambda>c. c \<notin> set cs) (df_columns df),
      df_rows = map (\<lambda>(i, r). (i, filter (\<lambda>(c, v). c \<notin> set cs) r)) (df_rows df)\<rparr>"

definition rename_column :: "DataFrame \<Rightarrow> string \<Rightarrow> string \<Rightarrow> DataFrame" where
  \<comment> \<open>\<open>rename(columns={old: new})\<close>; a frame without the column is unchanged\<close>
  "rename_column df old new =
     \<lparr>df_columns = map (\<lambda>c. if c = old then new else c) (df_columns df),
      df_rows = map (\<lambda>(i, r). (i, map (\<lambda>(c, v). (if c = old then new else c, v)) r))
                  (df_rows df)\<rparr>"

definition select_columns :: "DataFrame \<Rightarrow> string list \<Rightarrow> error + DataFrame" where
  \<comment> \<open>\<open>df[columns]\<close>: KeyError when a column is missing\<close>
  "select_columns df cols =
     (if set cols \<subseteq> set (df_columns df)
      then Inr \<lparr>df_columns = cols,
                df_rows = map (\<lambda>(i, r). (i, map (\<lambda>c. (c, the (map_of r c))) cols))
                            (df_rows df)\<rparr>
      else Inl KeyError)"

text \<open>
  \<open>pd.merge(left, right, left_on=key, right_on=key)\<close>: the inner join on one key.  A
  frame without the key column raises KeyError.  The rows follow the order of the left
  frame, a column that both frames have beside the key gets the suffixes \<open>_x\<close> and \<open>_y\<close>,
  and the result is labelled 0, 1, 2, ...
\<close>

definition pd_merge :: "DataFrame \<Rightarrow> DataFrame \<Rightarrow> string \<Rightarrow> error + DataFrame" where
  "pd_merge left right key =
     (if key \<notin> set (df_columns left) \<or> key \<notin> set (df_columns right) then Inl KeyError
      else
        (let shared = filter (\<lambda>c. c \<noteq> key \<and> c \<in> set (df_columns right)) (df_columns left);
             lname = (\<lambda>c. if c \<in> set shared then c @ ''_x'' else c);
             rname = (\<lambda>c. if c \<in> set shared then c @ ''_y'' else c);
             rest = (\<lambda>r. filter (\<lambda>(c, v). c \<noteq> key) r)
         in Inr \<lparr>df_columns = map lname (df_columns left)
                    @ map rname (filter (\<lambda>c. c \<noteq> key) (df_columns right)),
                  df_rows = range_index
                    (concat (map (\<lambda>(i, l).
                       map (\<lambda>(j, r). map (\<lambda>(c, v). (lname c, v)) l
                                        @ map (\<lambda>(c, v). (rname c, v)) (rest r))
                         (filter (\<lambda>(j, r). map_of r key = map_of l key) (df_rows right)))
                       (df_rows left)))\<rparr>))"

text \<open>The module function \<open>merge\<close>, with its default \<open>drop_columns\<close>.\<close>

definition merge :: "DataFrame \<Rightarrow> DataFrame \<Rightarrow> string \<Rightarrow> error + DataFrame" where
  "merge left_df right_df join_key =
     pd_merge (drop_columns_df left_df [''timestamp'', ''tid'', ''rmw_handle''])
              (drop_columns_df right_df [''timestamp'', ''tid'', ''rmw_handle''])
              join_key"

text \<open>
  The module function \<open>concat\<close>: the frames that have all the columns, cut to these
  columns, one after the other; \<open>pd.concat\<close> of no frame at all raises ValueError.
\<close>

definition concat_frames :: "string list \<Rightarrow> DataFrame list \<Rightarrow> error + DataFrame" where
  "concat_frames column_names dfs =
     (let concat_targets = filter (\<lambda>df. set column_names \<subseteq> set (df_columns df)) dfs
      in if concat_targets = [] then Inl ValueError
         else Inr \<lparr>df_columns = column_names,
                   df_rows = range_index
                     (concat (map (\<lambda>df. map (\<lambda>(i, r). map (\<lambda>c. (c, the (map_of r c)))
                                                         column_names)
                                            (df_rows df))
                                concat_targets))\<rparr>)"

definition ensure_columns :: "DataFrame \<Rightarrow> string list \<Rightarrow> DataFrame" where
  \<comment> \<open>every missing column is added, filled with NaN\<close>
  "ensure_columns df cols =
     (let missing = filter (\<lambda>c. c \<notin> set (df_columns df)) (remdups cols)
      in \<lparr>df_columns = df_columns df @ missing,
          df_rows = map (\<lambda>(i, r). (i, r @ map (\<lambda>c. (c, NaN)) missing)) (df_rows df)\<rparr>)"

text \<open>
  \<open>_add_column\<close>: the new column is filled row by row with \<open>cell_rule(row)\<close>; a rule that
  reads a column the row does not have raises KeyError.
\<close>

fun add_column_rows ::
  "string \<Rightarrow> (Row \<Rightarrow> error + string) \<Rightarrow> (nat \<times> Row) list \<Rightarrow> error + (nat \<times> Row) list" where
  "add_column_rows column_name cell_rule [] = Inr []"
| "add_column_rows column_name cell_rule ((i, r) # rest) =
     (case cell_rule (filter (\<lambda>(c, v). c \<noteq> column_name) r @ [(column_name, S '''')]) of
        Inl e \<Rightarrow> Inl e
      | Inr s \<Rightarrow>
          (case add_column_rows column_name cell_rule rest of
             Inl e \<Rightarrow> Inl e
           | Inr rest' \<Rightarrow>
               Inr ((i, filter (\<lambda>(c, v). c \<noteq> column_name) r @ [(column_name, S s)]) # rest')))"

definition add_column ::
  "DataFrame \<Rightarrow> string \<Rightarrow> (Row \<Rightarrow> error + string) \<Rightarrow> error + DataFrame" where
  "add_column df column_name cell_rule =
     (case add_column_rows column_name cell_rule (df_rows df) of
        Inl e \<Rightarrow> Inl e
      | Inr rows \<Rightarrow>
          Inr \<lparr>df_columns = filter (\<lambda>c. c \<noteq> column_name) (df_columns df) @ [column_name],
               df_rows = rows\<rparr>)"

text \<open>\<open>drop_duplicates()\<close> keeps the first of equal rows, with its index label.\<close>

fun drop_duplicates_from :: "Row list \<Rightarrow> (nat \<times> Row) list \<Rightarrow> (nat \<times> Row) list" where
  "drop_duplicates_from seen [] = []"
| "drop_duplicates_from seen ((i, r) # rest) =
     (if r \<in> set seen then drop_duplicates_from seen rest
      else (i, r) # drop_duplicates_from (r # seen) rest)"

definition drop_duplicates :: "DataFrame \<Rightarrow> DataFrame" where
  "drop_duplicates df = df\<lparr>df_rows := drop_duplicates_from [] (df_rows df)\<rparr>"

text \<open>
  \<open>groupby(key)\<close> on a column of integers (the addresses): KeyError without the column;
  the groups come in ascending order of the key, each with its rows in the order of the
  frame.  Rows whose key is NaN belong to no group.
\<close>

definition int_keys :: "string \<Rightarrow> (nat \<times> Row) list \<Rightarrow> int list" where
  "int_keys key rows =
     sort (remdups (concat (map (\<lambda>(i, r). case map_of r key of Some (I k) \<Rightarrow> [k] | _ \<Rightarrow> [])
                              rows)))"

definition groupby :: "DataFrame \<Rightarrow> string \<Rightarrow> error + (int \<times> (nat \<times> Row) list) list" where
  "groupby df key =
     (if key \<notin> set (df_columns df) then Inl KeyError
      else Inr (map (\<lambda>k. (k, filter (\<lambda>(i, r). map_of r key = Some (I k)) (df_rows df)))
                  (int_keys key (df_rows df))))"

definition drop_index :: "DataFrame \<Rightarrow> nat list \<Rightarrow> DataFrame" where
  \<comment> \<open>\<open>df.drop(index=labels)\<close>\<close>
  "drop_index df labels = df\<lparr>df_rows := filter (\<lambda>(i, r). i \<notin> set labels) (df_rows df)\<rparr>"

text \<open>Python's \<open>str\<close> of the values that the f-strings format.\<close>

fun str_nat :: "nat \<Rightarrow> string" where
  "str_nat n =
     (if n < 10 then [''0123456789'' ! n]
      else str_nat (n div 10) @ [''0123456789'' ! (n mod 10)])"

definition str_int :: "int \<Rightarrow> string" where
  "str_int i = (if i < 0 then ''-'' @ str_nat (nat (- i)) else str_nat (nat i))"

definition str_cell :: "cell \<Rightarrow> string" where
  "str_cell v = (case v of I i \<Rightarrow> str_int i | S s \<Rightarrow> s | NaN \<Rightarrow> ''nan'')"

section \<open>Value objects of the trace\<close>

text \<open>
  The value classes are declared outside the sources at hand; their fields are the keyword
  arguments of the constructor calls in \<open>lttng_info.py\<close>.  A Python tuple of topic names is
  a list, \<open>Optional\<close> is \<open>option\<close>, and two values are equal when all fields are.
\<close>

record CallbackValueLttng =
  callback_id :: string
  node_id :: string
  node_name :: string
  symbol :: string
  publish_topic_names :: "string list option"
  callback_object :: int

record TimerCallbackValueLttng = CallbackValueLttng +
  period_ns :: int

record SubscriptionCallbackValueLttng = CallbackValueLttng +
  subscribe_topic_name :: string
  callback_object_intra :: "int option"

record PublisherValueLttng =
  pub_node_name :: string
  topic_name :: string
  pub_node_id :: string
  callback_ids :: "string list option"
  publisher_handle :: int

datatype CallbackGroupType = MUTUALLY_EXCLUSIVE | REENTRANT

text \<open>
  A callback group value is built from the cells of a table row.  Modelled from the spec:
  the group type is Mutex or Reentrant; the class that turns the recorded type name into
  \<open>callback_group_type\<close> is not part of the sources at hand.
\<close>

record CallbackGroupValueLttng =
  callback_group_type_name :: cell
  cbg_node_name :: cell
  cbg_node_id :: string
  cbg_callback_ids :: "cell list"
  cbg_callback_group_id :: cell
  cbg_callback_group_addr :: cell
  cbg_executor_addr :: cell

definition callback_group_type :: "CallbackGroupValueLttng \<Rightarrow> CallbackGroupType" where
  "callback_group_type cbg =
     (if callback_group_type_name cbg = S ''reentrant'' then REENTRANT
      else MUTUALLY_EXCLUSIVE)"

record NodeValue =
  nv_node_name :: string
  nv_node_id :: "string option"

section \<open>PublisherBinder\<close>

definition TARGET_RECORD_MAX_INDEX :: int where
  "TARGET_RECORD_MAX_INDEX = 10"

subsection \<open>can_bind\<close>

text \<open>
  The body of \<open>can_bind\<close> starts with \<open>return False\<close>.  The statements after it can never
  run; they are kept as \<open>can_bind_unreachable\<close>, which \<open>can_bind\<close> does not call.
\<close>

definition can_bind_unreachable :: "CallbackGroupValueLttng list \<Rightarrow> bool" where
  "can_bind_unreachable cbgs =
     (if length cbgs \<noteq> 1 then False
      else if callback_group_type (hd cbgs) = REENTRANT then False
      else True)"

definition can_bind :: "(NodeValue \<Rightarrow> CallbackGroupValueLttng list) \<Rightarrow> NodeValue \<Rightarrow> bool" where
  "can_bind callback_groups_of node = False"

subsection \<open>The publish time of a publisher\<close>

definition select_record_index :: "Record list \<Rightarrow> int" where
  "select_record_index publisher_records =
     min (int (length publisher_records) - 1) TARGET_RECORD_MAX_INDEX"

definition get_publish_time :: "RecordsSource \<Rightarrow> PublisherValueLttng \<Rightarrow> int option" where
  "get_publish_time source publisher_info =
     (let handle = publisher_handle publisher_info;
          inter = filter (\<lambda>x. get x ''publisher_handle'' = Some handle)
                    (inter_proc_comm_records source)
      in if length inter > 0
         then get (inter ! nat (select_record_index inter)) ''rclcpp_publish_timestamp''
         else
           (let intra = filter (\<lambda>x. get x ''publisher_handle'' = Some handle)
                          (intra_proc_comm_records source)
            in if length intra > 0
               then get (intra ! nat (select_record_index intra))
                      ''rclcpp_intra_publish_timestamp''
               else None))"

subsection \<open>Consistency of a publish time with the executions of a callback\<close>

text \<open>
  The loop over \<open>cb_records.data\<close> of \<open>_is_consistent_inter\<close>: a record without one of
  the two timestamps is skipped (there \<open>get\<close> is absent), the first record that contains
  the publish time returns True, the first that lies entirely after it returns False, and
  the end of the records returns None.
\<close>

fun is_consistent_inter_loop :: "int \<Rightarrow> Record list \<Rightarrow> bool option" where
  "is_consistent_inter_loop publish_time [] = None"
| "is_consistent_inter_loop publish_time (data # rest) =
     (case (get data ''callback_start_timestamp'', get data ''callback_end_timestamp'') of
        (Some s, Some e) \<Rightarrow>
          if s < publish_time \<and> publish_time < e then Some True
          else if s > publish_time \<and> e > publish_time then Some False
          else is_consistent_inter_loop publish_time rest
      | _ \<Rightarrow> is_consistent_inter_loop publish_time rest)"

definition is_consistent_inter ::
  "RecordsSource \<Rightarrow> int \<Rightarrow> 'a CallbackValueLttng_scheme \<Rightarrow> bool option" where
  "is_consistent_inter source publish_time callback_info =
     is_consistent_inter_loop publish_time
       (filter (\<lambda>x. get x ''callback_object'' = Some (callback_object callback_info))
          (callback_records source))"

text \<open>\<open>_is_consistent_intra\<close> runs the same loop and returns False at the end.\<close>

fun is_consistent_intra_loop :: "int \<Rightarrow> Record list \<Rightarrow> bool" where
  "is_consistent_intra_loop publish_time [] = False"
| "is_consistent_intra_loop publish_time (data # rest) =
     (case (get data ''callback_start_timestamp'', get data ''callback_end_timestamp'') of
        (Some s, Some e) \<Rightarrow>
          if s < publish_time \<and> publish_time < e then True
          else if s > publish_time \<and> e > publish_time then False
          else is_consistent_intra_loop publish_time rest
      | _ \<Rightarrow> is_consistent_intra_loop publish_time rest)"

definition is_consistent_intra ::
  "RecordsSource \<Rightarrow> int \<Rightarrow> SubscriptionCallbackValueLttng \<Rightarrow> bool" where
  "is_consistent_intra source publish_time callback =
     is_consistent_intra_loop publish_time
       (filter (\<lambda>x. get x ''callback_object'' = callback_object_intra callback)
          (callback_records source))"

text \<open>
  \<open>Union[TimerCallbackValueLttng, SubscriptionCallbackValueLttng]\<close> is a sum; the
  \<open>isinstance\<close> test is the case distinction.
\<close>

definition is_consistent ::
  "RecordsSource \<Rightarrow> PublisherValueLttng
     \<Rightarrow> TimerCallbackValueLttng + SubscriptionCallbackValueLttng \<Rightarrow> bool" where
  "is_consistent source publisher_info callback_info =
     (case get_publish_time source publisher_info of
        None \<Rightarrow> False
      | Some publish_time \<Rightarrow>
          (case callback_info of
             Inl timer_cb \<Rightarrow>
               (if is_consistent_inter source publish_time timer_cb = Some True then True
                else False)
           | Inr sub_cb \<Rightarrow>
               (if is_consistent_inter source publish_time sub_cb = Some True then True
                else is_consistent_intra source publish_time sub_cb)))"

subsection \<open>Binding publishers to callbacks\<close>

text \<open>\<open>list.index\<close>: the position of the first equal element, ValueError when there is none.\<close>

fun index :: "'a list \<Rightarrow> 'a \<Rightarrow> error + nat" where
  "index [] x = Inl ValueError"
| "index (y # ys) x =
     (if y = x then Inr 0
      else case index ys x of Inl e \<Rightarrow> Inl e | Inr i \<Rightarrow> Inr (Suc i))"

definition update_timer_cb_publish_topics ::
  "TimerCallbackValueLttng list \<Rightarrow> TimerCallbackValueLttng \<Rightarrow> string list
     \<Rightarrow> error + TimerCallbackValueLttng list" where
  "update_timer_cb_publish_topics timer_cbs update_target topic_names =
     (case index timer_cbs update_target of
        Inl e \<Rightarrow> Inl e
      | Inr i \<Rightarrow> Inr (timer_cbs[i :=
          \<lparr>callback_id = callback_id update_target,
           node_id = node_id update_target,
           node_name = node_name update_target,
           symbol = symbol update_target,
           publish_topic_names = Some topic_names,
           callback_object = callback_object update_target,
           period_ns = period_ns update_target\<rparr>]))"

definition update_sub_cb_publish_topics ::
  "SubscriptionCallbackValueLttng list \<Rightarrow> SubscriptionCallbackValueLttng \<Rightarrow> string list
     \<Rightarrow> error + SubscriptionCallbackValueLttng list" where
  "update_sub_cb_publish_topics sub_cbs update_target topic_names =
     (case index sub_cbs update_target of
        Inl e \<Rightarrow> Inl e
      | Inr i \<Rightarrow> Inr (sub_cbs[i :=
          \<lparr>callback_id = callback_id update_target,
           node_id = node_id update_target,
           node_name = node_name update_target,
           symbol = symbol update_target,
           publish_topic_names = Some topic_names,
           callback_object = callback_object update_target,
           subscribe_topic_name = subscribe_topic_name update_target,
           callback_object_intra = callback_object_intra update_target\<rparr>]))"

text \<open>
  "insert empty tuple".  For timers the loop runs over the argument \<open>callbacks\<close> and
  updates the copy \<open>callback_list\<close>; for subscriptions it runs over \<open>callback_list\<close> itself,
  reading position \<open>i\<close> of the list as it is at step \<open>i\<close>.
\<close>

fun timer_insert_empty ::
  "TimerCallbackValueLttng list \<Rightarrow> TimerCallbackValueLttng list
     \<Rightarrow> error + TimerCallbackValueLttng list" where
  "timer_insert_empty [] callback_list = Inr callback_list"
| "timer_insert_empty (cb # rest) callback_list =
     (case update_timer_cb_publish_topics callback_list cb [] of
        Inl e \<Rightarrow> Inl e
      | Inr callback_list' \<Rightarrow> timer_insert_empty rest callback_list')"

fun sub_insert_empty ::
  "nat list \<Rightarrow> SubscriptionCallbackValueLttng list
     \<Rightarrow> error + SubscriptionCallbackValueLttng list" where
  "sub_insert_empty [] callback_list = Inr callback_list"
| "sub_insert_empty (i # rest) callback_list =
     (case update_sub_cb_publish_topics callback_list (callback_list ! i) [] of
        Inl e \<Rightarrow> Inl e
      | Inr callback_list' \<Rightarrow> sub_insert_empty rest callback_list')"

text \<open>
  The loop over \<open>product(publishers, callbacks)\<close>: an inconsistent pair is skipped
  (\<open>continue\<close>); at the first consistent pair the callback is updated and \<open>break\<close> leaves
  the loop, so the remaining pairs are not looked at.
\<close>

fun timer_bind_loop ::
  "RecordsSource \<Rightarrow> (PublisherValueLttng \<times> TimerCallbackValueLttng) list
     \<Rightarrow> TimerCallbackValueLttng list \<Rightarrow> error + TimerCallbackValueLttng list" where
  "timer_bind_loop source [] callback_list = Inr callback_list"
| "timer_bind_loop source ((publisher, cb) # rest) callback_list =
     (if \<not> is_consistent source publisher (Inl cb)
      then timer_bind_loop source rest callback_list
      else update_timer_cb_publish_topics callback_list cb
             (case publish_topic_names cb of
                None \<Rightarrow> [topic_name publisher]
              | Some names \<Rightarrow> [topic_name publisher] @ names))"

fun sub_bind_loop ::
  "RecordsSource \<Rightarrow> (PublisherValueLttng \<times> SubscriptionCallbackValueLttng) list
     \<Rightarrow> SubscriptionCallbackValueLttng list
     \<Rightarrow> error + SubscriptionCallbackValueLttng list" where
  "sub_bind_loop source [] callback_list = Inr callback_list"
| "sub_bind_loop source ((publisher, cb_info) # rest) callback_list =
     (if \<not> is_consistent source publisher (Inr cb_info)
      then sub_bind_loop source rest callback_list
      else update_sub_cb_publish_topics callback_list cb_info
             (case publish_topic_names cb_info of
                None \<Rightarrow> [topic_name publisher]
              | Some names \<Rightarrow> [topic_name publisher] @ names))"

text \<open>
  The binder reads the publishers of the node through
  \<open>LttngInfo.get_publishers_without_cb_bind\<close>; its answer is the argument \<open>node_publishers\<close>.
\<close>

definition bind_pub_topics_and_timer_cbs ::
  "RecordsSource \<Rightarrow> PublisherValueLttng list \<Rightarrow> TimerCallbackValueLttng list
     \<Rightarrow> error + TimerCallbackValueLttng list" where
  "bind_pub_topics_and_timer_cbs source node_publishers callbacks =
     (case timer_insert_empty callbacks callbacks of
        Inl e \<Rightarrow> Inl e
      | Inr callback_list \<Rightarrow>
          (let publishers =
                 filter (\<lambda>x. topic_name x \<notin> set [''/parameter_events'', ''/rosout''])
                   node_publishers
           in timer_bind_loop source (List.product publishers callbacks) callback_list))"

definition bind_pub_topics_and_sub_cbs ::
  "RecordsSource \<Rightarrow> PublisherValueLttng list \<Rightarrow> SubscriptionCallbackValueLttng list
     \<Rightarrow> error + SubscriptionCallbackValueLttng list" where
  "bind_pub_topics_and_sub_cbs source node_publishers callbacks_info =
     (let system_topics = [''/parameter_events'', ''/rosout'', ''/clock''];
          callback_list = filter (\<lambda>x. subscribe_topic_name x \<notin> set system_topics)
                            callbacks_info
      in case sub_insert_empty [0..<length callback_list] callback_list of
           Inl e \<Rightarrow> Inl e
         | Inr callback_list' \<Rightarrow>
             (let publishers = filter (\<lambda>x. topic_name x \<notin> set system_topics)
                                 node_publishers
              in sub_bind_loop source (List.product publishers callback_list')
                   callback_list'))"

subsection \<open>The callers of the binder in LttngInfo\<close>

text \<open>
  What \<open>LttngInfo\<close> reads from its tables and caches is given as functions: the callback
  groups of a node, and per node id the publishers and the callbacks as loaded (with
  \<open>publish_topic_names\<close> None).
\<close>

record LttngInfo =
  get_callback_groups :: "NodeValue \<Rightarrow> CallbackGroupValueLttng list"
  get_publishers_without_cb_bind :: "string \<Rightarrow> PublisherValueLttng list"
  get_timer_cbs_without_pub :: "string \<Rightarrow> TimerCallbackValueLttng list"
  get_sub_cbs_without_pub :: "string \<Rightarrow> SubscriptionCallbackValueLttng list"
  records_source :: RecordsSource

definition get_timer_callbacks ::
  "LttngInfo \<Rightarrow> NodeValue \<Rightarrow> error + TimerCallbackValueLttng list" where
  "get_timer_callbacks info node =
     (case nv_node_id node of
        None \<Rightarrow> Inl AssertionError
      | Some nid \<Rightarrow>
          (let timer_cbs = get_timer_cbs_without_pub info nid
           in if can_bind (get_callback_groups info) node \<and> length timer_cbs > 0
              then bind_pub_topics_and_timer_cbs (records_source info)
                     (get_publishers_without_cb_bind info nid) timer_cbs
              else Inr timer_cbs))"

definition get_subscription_callback_values ::
  "LttngInfo \<Rightarrow> NodeValue \<Rightarrow> error + SubscriptionCallbackValueLttng list" where
  "get_subscription_callback_values info node =
     (case nv_node_id node of
        None \<Rightarrow> Inl AssertionError
      | Some nid \<Rightarrow>
          (let sub_cbs_info = get_sub_cbs_without_pub info nid
           in if can_bind (get_callback_groups info) node
              then bind_pub_topics_and_sub_cbs (records_source info)
                     (get_publishers_without_cb_bind info nid) sub_cbs_info
              else Inr sub_cbs_info))"

subsection \<open>Execution intervals\<close>

text \<open>
  The records of one callback object in the callback stream, and where a record with both
  timestamps lies relative to a publish time.
\<close>

definition executions_of :: "RecordsSource \<Rightarrow> int option \<Rightarrow> Record list" where
  "executions_of source obj =
     filter (\<lambda>x. get x ''callback_object'' = obj) (callback_records source)"

definition inside_interval :: "int \<Rightarrow> Record \<Rightarrow> bool" where
  "inside_interval publish_time r =
     (case (get r ''callback_start_timestamp'', get r ''callback_end_timestamp'') of
        (Some s, Some e) \<Rightarrow> s < publish_time \<and> publish_time < e
      | _ \<Rightarrow> False)"

definition entirely_after :: "int \<Rightarrow> Record \<Rightarrow> bool" where
  "entirely_after publish_time r =
     (case (get r ''callback_start_timestamp'', get r ''callback_end_timestamp'') of
        (Some s, Some e) \<Rightarrow> s > publish_time \<and> e > publish_time
      | _ \<Rightarrow> False)"

definition ended_before :: "int \<Rightarrow> Record \<Rightarrow> bool" where
  "ended_before publish_time r =
     (case (get r ''callback_start_timestamp'', get r ''callback_end_timestamp'') of
        (Some s, Some e) \<Rightarrow> e < publish_time
      | _ \<Rightarrow> True)"

definition callback_object_of ::
  "TimerCallbackValueLttng + SubscriptionCallbackValueLttng \<Rightarrow> int" where
  "callback_object_of cb =
     (case cb of Inl timer_cb \<Rightarrow> callback_object timer_cb
               | Inr sub_cb \<Rightarrow> callback_object sub_cb)"

section \<open>DataFrameFormatted\<close>

text \<open>The tables of \<open>Ros2DataModel\<close> that the builders read.\<close>

record Ros2DataModel =
  nodes :: DataFrame
  timers :: DataFrame
  timer_node_links :: DataFrame
  callback_objects :: DataFrame
  callback_symbols :: DataFrame
  callback_group_timer :: DataFrame
  subscriptions :: DataFrame
  subscription_objects :: DataFrame
  callback_group_subscription :: DataFrame
  callback_groups :: DataFrame
  callback_groups_static :: DataFrame
  executors :: DataFrame
  executors_static :: DataFrame
  publishers :: DataFrame

text \<open>
  Statements in sequence: the next one runs on the result of the one before, a raise
  ends the sequence.  \<open>try_except_KeyError body handler\<close> is
  \<open>try: body  except KeyError: return handler\<close>; any other exception passes through.
\<close>

definition then_do :: "error + 'a \<Rightarrow> ('a \<Rightarrow> error + 'b) \<Rightarrow> error + 'b" where
  "then_do r f = (case r of Inl e \<Rightarrow> Inl e | Inr x \<Rightarrow> f x)"

definition try_except_KeyError :: "error + 'a \<Rightarrow> 'a \<Rightarrow> error + 'a" where
  "try_except_KeyError body handler =
     (case body of Inl KeyError \<Rightarrow> Inr handler | Inl e \<Rightarrow> Inl e | Inr x \<Rightarrow> Inr x)"

subsection \<open>Callback groups\<close>

definition cbg_columns :: "string list" where
  "cbg_columns = [''callback_group_id'', ''callback_group_addr'', ''group_type_name'',
                  ''executor_addr'']"

definition to_callback_group_id :: "Row \<Rightarrow> error + string" where
  "to_callback_group_id row =
     then_do (at row ''callback_group_addr'') (\<lambda>addr. Inr (''callback_group_'' @ str_cell addr))"

text \<open>
  The loop over the groups of one callback group address: a group of two or more rows
  logs a warning with the executor addresses of the group and marks every row of the group
  but the last for removal.  The log is returned beside the frame.
\<close>

datatype LogRecord = Warning "cell list"

fun executor_duplicates ::
  "(int \<times> (nat \<times> Row) list) list \<Rightarrow> LogRecord list \<times> nat list" where
  "executor_duplicates [] = ([], [])"
| "executor_duplicates ((k, grp) # rest) =
     (let (log, executor_duplicated_indexes) = executor_duplicates rest
      in if length grp \<ge> 2
         then (Warning (map (\<lambda>(i, r). case map_of r ''executor_addr'' of
                                         Some v \<Rightarrow> v | None \<Rightarrow> NaN) grp) # log,
               butlast (map fst grp) @ executor_duplicated_indexes)
         else (log, executor_duplicated_indexes))"

definition build_cbg_df :: "Ros2DataModel \<Rightarrow> error + DataFrame \<times> LogRecord list" where
  "build_cbg_df data =
     then_do
       (if length (df_rows (callback_groups_static data)) > 0
           \<and> length (df_rows (executors_static data)) > 0
        then then_do (merge (callback_groups_static data) (executors_static data)
                        ''entities_collector_addr'')
               (\<lambda>df_static. concat_frames (tl cbg_columns) [callback_groups data, df_static])
        else Inr (callback_groups data))
     (\<lambda>df. then_do (add_column df ''callback_group_id'' to_callback_group_id)
     (\<lambda>df. then_do (select_columns (ensure_columns df cbg_columns) cbg_columns)
     (\<lambda>df. let df = drop_duplicates df
           in then_do (groupby df ''callback_group_addr'')
     (\<lambda>groups. let (log, executor_duplicated_indexes) = executor_duplicates groups;
                   df = (if length executor_duplicated_indexes \<ge> 1
                         then drop_index df executor_duplicated_indexes else df)
               in Inr (reset_index df, log)))))"

subsection \<open>Timer callbacks\<close>

definition timer_callbacks_columns :: "string list" where
  "timer_callbacks_columns =
     [''callback_id'', ''callback_object'', ''node_handle'', ''timer_handle'',
      ''callback_group_addr'', ''period_ns'', ''symbol'']"

definition timer_callback_id :: "Row \<Rightarrow> error + string" where
  "timer_callback_id row =
     then_do (at row ''callback_object'')
       (\<lambda>cb_object. Inr (''timer_callback_'' @ str_cell cb_object))"

text \<open>The statements inside \<open>try\<close>, and the function with its \<open>except KeyError\<close>.\<close>

definition build_timer_callbacks_df_try :: "Ros2DataModel \<Rightarrow> error + DataFrame" where
  "build_timer_callbacks_df_try data =
     then_do (merge (timers data) (timer_node_links data) ''timer_handle'')
     (\<lambda>df. then_do (merge df (rename_column (callback_objects data) ''reference''
                                  ''timer_handle'') ''timer_handle'')
     (\<lambda>df. then_do (merge df (callback_symbols data) ''callback_object'')
     (\<lambda>df. then_do (merge df (callback_group_timer data) ''timer_handle'')
     (\<lambda>df. then_do (add_column df ''callback_id'' timer_callback_id)
     (\<lambda>df. select_columns
             (ensure_columns (rename_column df ''period'' ''period_ns'')
                timer_callbacks_columns)
             timer_callbacks_columns)))))"

definition build_timer_callbacks_df :: "Ros2DataModel \<Rightarrow> error + DataFrame" where
  "build_timer_callbacks_df data =
     try_except_KeyError (build_timer_callbacks_df_try data)
       (empty_frame timer_callbacks_columns)"

subsection \<open>Subscription callbacks\<close>

definition sub_callbacks_columns :: "string list" where
  "sub_callbacks_columns =
     [''callback_id'', ''callback_object'', ''callback_object_intra'', ''node_handle'',
      ''subscription_handle'', ''callback_group_addr'', ''topic_name'', ''symbol'',
      ''depth'']"

definition subscription_callback_id :: "Row \<Rightarrow> error + string" where
  "subscription_callback_id row =
     then_do (at row ''callback_object'')
       (\<lambda>cb_object. Inr (''subscription_callback_'' @ str_cell cb_object))"

text \<open>
  \<open>_format_subscription_callback_object\<close>: one dictionary per subscription handle.  A
  group of one row gives \<open>callback_object\<close>, a group of two gives \<open>callback_object\<close> from
  its second row and \<open>callback_object_intra\<close> from its first, a larger group gives the
  handle alone.  \<open>from_dict\<close> makes one column per key that occurs and fills with NaN.
\<close>

fun subscription_records ::
  "(int \<times> (nat \<times> Row) list) list \<Rightarrow> error + Row list" where
  "subscription_records [] = Inr []"
| "subscription_records ((key, grp) # rest) =
     then_do
       (if length grp = 1
        then then_do (at (snd (grp ! 0)) ''callback_object'')
               (\<lambda>v. Inr [(''subscription_handle'', I key), (''callback_object'', v)])
        else if length grp = 2
        then then_do (at (snd (grp ! 1)) ''callback_object'')
               (\<lambda>v. then_do (at (snd (grp ! 0)) ''callback_object'')
               (\<lambda>w. Inr [(''subscription_handle'', I key), (''callback_object'', v),
                          (''callback_object_intra'', w)]))
        else Inr [(''subscription_handle'', I key)])
       (\<lambda>record. then_do (subscription_records rest) (\<lambda>dicts. Inr (record # dicts)))"

definition from_dict :: "Row list \<Rightarrow> DataFrame" where
  "from_dict dicts =
     (let cols = rev (remdups (rev (concat (map (map fst) dicts))))
      in \<lparr>df_columns = cols,
          df_rows = range_index
            (map (\<lambda>d. map (\<lambda>c. (c, case map_of d c of Some v \<Rightarrow> v | None \<Rightarrow> NaN)) cols)
               dicts)\<rparr>)"

definition format_subscription_callback_object :: "Ros2DataModel \<Rightarrow> error + DataFrame" where
  "format_subscription_callback_object data =
     then_do (merge (subscription_objects data)
                (rename_column (callback_objects data) ''reference'' ''subscription'')
                ''subscription'')
     (\<lambda>sub_df. then_do (groupby sub_df ''subscription_handle'')
     (\<lambda>groups. then_do (subscription_records groups)
     (\<lambda>dicts. Inr (from_dict dicts))))"

definition build_sub_callbacks_df_try :: "Ros2DataModel \<Rightarrow> error + DataFrame" where
  "build_sub_callbacks_df_try data =
     then_do (format_subscription_callback_object data)
     (\<lambda>callback_objects_df.
        then_do (merge (subscriptions data) callback_objects_df ''subscription_handle'')
     (\<lambda>df. then_do (merge df (callback_symbols data) ''callback_object'')
     (\<lambda>df. then_do (merge df (callback_group_subscription data) ''subscription_handle'')
     (\<lambda>df. then_do (add_column df ''callback_id'' subscription_callback_id)
     (\<lambda>df. select_columns (ensure_columns df sub_callbacks_columns)
             sub_callbacks_columns)))))"

definition build_sub_callbacks_df :: "Ros2DataModel \<Rightarrow> error + DataFrame" where
  "build_sub_callbacks_df data =
     try_except_KeyError (build_sub_callbacks_df_try data)
       (empty_frame sub_callbacks_columns)"

subsection \<open>Executors, publishers and nodes\<close>

definition executor_columns :: "string list" where
  "executor_columns = [''executor_id'', ''executor_addr'', ''executor_type_name'']"

definition to_executor_id :: "Row \<Rightarrow> error + string" where
  "to_executor_id row =
     then_do (at row ''executor_addr'') (\<lambda>addr. Inr (''executor_'' @ str_cell addr))"

definition build_executor_df :: "Ros2DataModel \<Rightarrow> error + DataFrame" where
  "build_executor_df data =
     then_do
       (if length (df_rows (executors_static data)) > 0
        then concat_frames (tl executor_columns) [executors data, executors_static data]
        else Inr (executors data))
     (\<lambda>df. then_do (add_column df ''executor_id'' to_executor_id)
     (\<lambda>df. then_do (select_columns (ensure_columns df executor_columns) executor_columns)
     (\<lambda>df. select_columns (drop_duplicates df) executor_columns)))"

definition publisher_columns :: "string list" where
  "publisher_columns =
     [''publisher_id'', ''publisher_handle'', ''node_handle'', ''topic_name'', ''depth'']"

definition to_publisher_id :: "Row \<Rightarrow> error + string" where
  "to_publisher_id row =
     then_do (at row ''publisher_handle'') (\<lambda>h. Inr (''publisher_'' @ str_cell h))"

definition build_publisher_df :: "Ros2DataModel \<Rightarrow> error + DataFrame" where
  "build_publisher_df data =
     then_do (add_column (publishers data) ''publisher_id'' to_publisher_id)
     (\<lambda>df. select_columns (ensure_columns df publisher_columns) publisher_columns)"

definition nodes_columns :: "string list" where
  "nodes_columns = [''node_id'', ''node_handle'', ''node_name'']"

definition ns_and_node_name :: "Row \<Rightarrow> error + string" where
  "ns_and_node_name row =
     then_do (at row ''namespace'')
     (\<lambda>ns. then_do (at row ''name'')
     (\<lambda>name. case (ns, name) of
                 (S ns, S name) \<Rightarrow>
                   if ns = [] then Inl IndexError
                   else if last ns = CHR ''/'' then Inr (ns @ name)
                   else Inr (ns @ ''/'' @ name)
               | _ \<Rightarrow> Inl TypeError))"

definition to_node_id :: "Row \<Rightarrow> error + string" where
  "to_node_id row =
     then_do (at row ''node_name'')
     (\<lambda>node_name. then_do (at row ''node_handle'')
     (\<lambda>node_handle. Inr (str_cell node_name @ ''_'' @ str_cell node_handle)))"

definition build_nodes_df :: "Ros2DataModel \<Rightarrow> error + DataFrame" where
  "build_nodes_df data =
     then_do (add_column (nodes data) ''node_name'' ns_and_node_name)
     (\<lambda>node_df. then_do (add_column node_df ''node_id'' to_node_id)
     (\<lambda>node_df.
        if \<not> set [''namespace'', ''name''] \<subseteq> set (df_columns node_df) then Inl KeyError
        else select_columns
               (reset_index (drop_columns_df node_df [''namespace'', ''name'']))
               nodes_columns))"

subsection \<open>The constructor\<close>

record DataFrameFormatted =
  executor_df :: DataFrame
  nodes_df :: DataFrame
  timer_callbacks_df :: DataFrame
  subscription_callbacks_df :: DataFrame
  callback_groups_df :: DataFrame
  publishers_df :: DataFrame

text \<open>
  \<open>DataFrameFormatted.__init__\<close> builds the six tables one after the other; the warnings
  of the callback group table are what it logs.
\<close>

definition DataFrameFormatted_init ::
  "Ros2DataModel \<Rightarrow> error + DataFrameFormatted \<times> LogRecord list" where
  "DataFrameFormatted_init data =
     then_do (build_executor_df data)
     (\<lambda>executor. then_do (build_nodes_df data)
     (\<lambda>nodes. then_do (build_timer_callbacks_df data)
     (\<lambda>timer_callbacks. then_do (build_sub_callbacks_df data)
     (\<lambda>sub_callbacks. then_do (build_cbg_df data)
     (\<lambda>(cbg, log). then_do (build_publisher_df data)
     (\<lambda>pub. Inr (\<lparr>executor_df = executor, nodes_df = nodes,
                    timer_callbacks_df = timer_callbacks,
                    subscription_callbacks_df = sub_callbacks,
                    callback_groups_df = cbg, publishers_df = pub\<rparr>, log)))))))"

section \<open>LttngInfo._get_callback_groups\<close>

text \<open>
  \<open>_id_to_topic\<close> is the dictionary from subscription callback ids to topic names that
  \<open>LttngInfo\<close> has filled so far; it is an argument here.
\<close>

definition is_user_made_callback :: "(string \<times> string) list \<Rightarrow> cell \<Rightarrow> bool" where
  "is_user_made_callback id_to_topic cb_id =
     (case cb_id of
        S cid \<Rightarrow>
          (case map_of id_to_topic cid of
             None \<Rightarrow> True
           | Some topic \<Rightarrow> topic \<notin> set [''/clock'', ''/parameter_events''])
      | _ \<Rightarrow> True)"

fun column_values :: "(nat \<times> Row) list \<Rightarrow> string \<Rightarrow> error + cell list" where
  "column_values [] c = Inr []"
| "column_values ((i, r) # rest) c =
     then_do (at r c) (\<lambda>v. then_do (column_values rest c) (\<lambda>vs. Inr (v # vs)))"

text \<open>The loop over \<open>concat_df.groupby(['callback_group_addr'])\<close>.\<close>

fun callback_groups_loop ::
  "(string \<times> string) list \<Rightarrow> string \<Rightarrow> (int \<times> (nat \<times> Row) list) list
     \<Rightarrow> error + CallbackGroupValueLttng list" where
  "callback_groups_loop id_to_topic target_node_id [] = Inr []"
| "callback_groups_loop id_to_topic target_node_id ((k, group_df) # rest) =
     (case group_df of
        [] \<Rightarrow> Inl IndexError
      | (i, row) # others \<Rightarrow>
          then_do (at row ''node_id'')
          (\<lambda>node_id'.
             if S target_node_id \<noteq> node_id' then callback_groups_loop id_to_topic target_node_id rest
             else
               then_do (column_values group_df ''callback_id'')
               (\<lambda>callback_ids. then_do (at row ''group_type_name'')
               (\<lambda>group_type_name. then_do (at row ''node_name'')
               (\<lambda>node_name. then_do (at row ''callback_group_id'')
               (\<lambda>callback_group_id. then_do (at row ''callback_group_addr'')
               (\<lambda>callback_group_addr. then_do (at row ''executor_addr'')
               (\<lambda>executor_addr.
                  then_do (callback_groups_loop id_to_topic target_node_id rest)
               (\<lambda>cbgs. Inr (\<lparr>callback_group_type_name = group_type_name,
                              cbg_node_name = node_name,
                              cbg_node_id = target_node_id,
                              cbg_callback_ids =
                                filter (is_user_made_callback id_to_topic) callback_ids,
                              cbg_callback_group_id = callback_group_id,
                              cbg_callback_group_addr = callback_group_addr,
                              cbg_executor_addr = executor_addr\<rparr> # cbgs))))))))))"

definition get_callback_groups_try ::
  "DataFrameFormatted \<Rightarrow> (string \<times> string) list \<Rightarrow> string
     \<Rightarrow> error + CallbackGroupValueLttng list" where
  "get_callback_groups_try formatted id_to_topic target_node_id =
     then_do (concat_frames [''callback_group_addr'', ''callback_id'', ''node_handle'']
                [timer_callbacks_df formatted, subscription_callbacks_df formatted])
     (\<lambda>concat_df. then_do (merge concat_df (nodes_df formatted) ''node_handle'')
     (\<lambda>concat_df. then_do (merge concat_df (callback_groups_df formatted)
                              ''callback_group_addr'')
     (\<lambda>concat_df. then_do (groupby concat_df ''callback_group_addr'')
     (\<lambda>groups. callback_groups_loop id_to_topic target_node_id groups))))"

definition get_callback_groups_of_node ::
  "DataFrameFormatted \<Rightarrow> (string \<times> string) list \<Rightarrow> string
     \<Rightarrow> error + CallbackGroupValueLttng list" where
  "get_callback_groups_of_node formatted id_to_topic target_node_id =
     try_except_KeyError (get_callback_groups_try formatted id_to_topic target_node_id) []"

text \<open>A result that, if it is a raise, raises KeyError.\<close>

definition raises_only_KeyError :: "error + 'a \<Rightarrow> bool" where
  "raises_only_KeyError r = (case r of Inl e \<Rightarrow> e = KeyError | Inr x \<Rightarrow> True)"

section \<open>Graph search\<close>

text \<open>
  A \<open>GraphNode\<close> is its name: nodes are never changed and are compared by name.  A
  \<open>GraphBranch\<close> is an object whose \<open>arrived\<close> flag the search sets, and the same object
  can be reached from several lists, so branches live in a store: a reference is a
  position in the store, a list of branches is a list of references, and creating an
  object appends it to the store.  A reference in use is always a position of the store.
\<close>

datatype GraphNode = GraphNode (name: string)

record GraphBranch =
  arrived :: bool
  src_node :: GraphNode
  dst_node :: GraphNode

definition GraphBranch_init :: "GraphNode \<Rightarrow> GraphNode \<Rightarrow> GraphBranch" where
  \<comment> \<open>\<open>GraphBranch.__init__\<close>\<close>
  "GraphBranch_init src dst = \<lparr>arrived = False, src_node = src, dst_node = dst\<rparr>"

definition branch_eq :: "GraphBranch \<Rightarrow> GraphBranch \<Rightarrow> bool" where
  \<comment> \<open>\<open>GraphBranch.__eq__\<close>\<close>
  "branch_eq b c = (src_node b = src_node c \<and> dst_node b = dst_node c)"

type_synonym ref = nat

type_synonym store = "GraphBranch list"

text \<open>
  \<open>deepcopy\<close> of a list of branches (also of a \<open>GraphPath\<close>, whose data is such a list):
  every object is copied once, to a new position, and an object that occurs again is
  replaced by the copy already made (the memo of \<open>deepcopy\<close>).
\<close>

fun deepcopy_memo :: "(ref \<times> ref) list \<Rightarrow> store \<Rightarrow> ref list \<Rightarrow> store \<times> ref list" where
  "deepcopy_memo memo h [] = (h, [])"
| "deepcopy_memo memo h (r # rs) =
     (case map_of memo r of
        Some r' \<Rightarrow>
          (let (h', rs') = deepcopy_memo memo h rs in (h', r' # rs'))
      | None \<Rightarrow>
          (let (h', rs') = deepcopy_memo ((r, length h) # memo) (h @ [h ! r]) rs
           in (h', length h # rs')))"

definition deepcopy :: "store \<Rightarrow> ref list \<Rightarrow> store \<times> ref list" where
  "deepcopy h rs = deepcopy_memo [] h rs"

text \<open>
  The loop \<open>for branch in target_branches\<close> of \<open>search_local\<close>; \<open>recurse\<close> is the call of
  \<open>search_local\<close> one level deeper.  The state is the store and the list \<open>paths\<close>, which
  the calls append to.
\<close>

fun search_loop ::
  "(GraphNode \<Rightarrow> ref list \<Rightarrow> ref list \<Rightarrow> store \<times> ref list list
      \<Rightarrow> error + store \<times> ref list list)
   \<Rightarrow> ref list \<Rightarrow> ref list \<Rightarrow> ref list \<Rightarrow> store \<times> ref list list
   \<Rightarrow> error + store \<times> ref list list" where
  "search_loop recurse path branches [] state = Inr state"
| "search_loop recurse path branches (branch # target_branches) (h, paths) =
     (if arrived (h ! branch)
      then search_loop recurse path branches target_branches (h, paths)
      else
        (let (h1, branches') = deepcopy h branches
         in case find (\<lambda>b. branch_eq (h1 ! b) (h1 ! branch)) branches' of
              None \<Rightarrow> Inl StopIteration
            | Some branch' \<Rightarrow>
                (let h2 = h1[branch' := (h1 ! branch')\<lparr>arrived := True\<rparr>];
                     (h3, path') = deepcopy h2 path;
                     path'' = path' @ [branch]
                 in case recurse (dst_node (h3 ! branch')) path'' branches' (h3, paths) of
                      Inl e \<Rightarrow> Inl e
                    | Inr state' \<Rightarrow>
                        search_loop recurse path branches target_branches state')))"

text \<open>
  \<open>search_local\<close>.  Python bounds the depth of recursion and raises RecursionError
  beyond it; \<open>depth\<close> is the number of nested calls still allowed.
\<close>

primrec search_local ::
  "nat \<Rightarrow> GraphNode \<Rightarrow> GraphNode \<Rightarrow> ref list \<Rightarrow> ref list \<Rightarrow> store \<times> ref list list
   \<Rightarrow> error + store \<times> ref list list" where
  "search_local 0 dst node path branches state = Inl RecursionError"
| "search_local (Suc depth) dst node path branches state =
     (let paths = (if node = dst \<and> length path > 0 then snd state @ [path] else snd state);
          target_branches = filter (\<lambda>x. src_node (fst state ! x) = node) branches
      in search_loop (search_local depth dst) path branches target_branches
           (fst state, paths))"

text \<open>
  \<open>GraphSearcher.search\<close> on a searcher whose \<open>_branches\<close> are the references \<open>branches\<close>
  in the store \<open>h\<close>; it returns the store after the call and the paths.
\<close>

definition search ::
  "nat \<Rightarrow> store \<Rightarrow> ref list \<Rightarrow> GraphNode \<Rightarrow> GraphNode \<Rightarrow> error + store \<times> ref list list" where
  "search depth h branches src dst = search_local depth dst src [] branches (h, [])"

definition to_graph_nodes :: "store \<Rightarrow> ref list \<Rightarrow> GraphNode list" where
  \<comment> \<open>\<open>GraphPath.to_graph_nodes\<close>\<close>
  "to_graph_nodes h path =
     (if length path = 0 then []
      else src_node (h ! (path ! 0)) # map (\<lambda>branch. dst_node (h ! branch)) path)"

subsection \<open>CallbackPathSercher\<close>

text \<open>
  Of a callback, a communication and a variable passing the search reads the unique name
  of the callbacks at the two ends; the classes are declared outside the sources at hand.
\<close>

record CallbackBase =
  callback_unique_name :: string

record Communication =
  callback_publish :: "CallbackBase option"
  callback_subscription :: CallbackBase

record VariablePassing =
  callback_write :: CallbackBase
  callback_read :: CallbackBase

definition communication_branches :: "Communication list \<Rightarrow> GraphBranch list" where
  "communication_branches communications =
     concat (map (\<lambda>communication.
        case callback_publish communication of
          None \<Rightarrow> []
        | Some cb_publish \<Rightarrow>
            [GraphBranch_init (GraphNode (callback_unique_name cb_publish))
               (GraphNode (callback_unique_name (callback_subscription communication)))])
       communications)"

definition variable_passing_branches :: "VariablePassing list \<Rightarrow> GraphBranch list" where
  "variable_passing_branches variable_passings =
     map (\<lambda>variable_passing.
        GraphBranch_init
          (GraphNode (callback_unique_name (callback_write variable_passing)))
          (GraphNode (callback_unique_name (callback_read variable_passing))))
       variable_passings"

text \<open>
  \<open>_to_path\<close>: the dictionary from unique names to callbacks keeps the last callback of a
  name; a name that is not a key raises KeyError.
\<close>

fun to_path :: "CallbackBase list \<Rightarrow> GraphNode list \<Rightarrow> error + CallbackBase list" where
  "to_path callbacks [] = Inr []"
| "to_path callbacks (node # rest) =
     (case find (\<lambda>cb. callback_unique_name cb = name node) (rev callbacks) of
        None \<Rightarrow> Inl KeyError
      | Some cb \<Rightarrow>
          (case to_path callbacks rest of
             Inl e \<Rightarrow> Inl e
           | Inr cbs \<Rightarrow> Inr (cb # cbs)))"

fun to_paths ::
  "CallbackBase list \<Rightarrow> GraphNode list list \<Rightarrow> error + CallbackBase list list" where
  "to_paths callbacks [] = Inr []"
| "to_paths callbacks (graph_nodes # rest) =
     (case to_path callbacks graph_nodes of
        Inl e \<Rightarrow> Inl e
      | Inr p \<Rightarrow>
          (case to_paths callbacks rest of
             Inl e \<Rightarrow> Inl e
           | Inr ps \<Rightarrow> Inr (p # ps)))"

text \<open>
  \<open>CallbackPathSercher.search\<close>: the branches are new objects, so the store is the list of
  them and the searcher holds the references 0, 1, 2, ...
\<close>

definition callback_path_search ::
  "nat \<Rightarrow> CallbackBase list \<Rightarrow> Communication list \<Rightarrow> VariablePassing list
   \<Rightarrow> string \<Rightarrow> string \<Rightarrow> error + CallbackBase list list" where
  "callback_path_search depth callbacks communications variable_passings
     start_callback_unique_name end_callback_unique_name =
     (let h = communication_branches communications
                @ variable_passing_branches variable_passings;
          branches = [0..<length h]
      in case search depth h branches (GraphNode start_callback_unique_name)
                (GraphNode end_callback_unique_name) of
           Inl e \<Rightarrow> Inl e
         | Inr (h', graph_paths) \<Rightarrow>
             to_paths callbacks (map (to_graph_nodes h') graph_paths))"

subsection \<open>The search without the store\<close>

text \<open>
  What a run of \<open>search_local\<close> does is fixed by the values of the branches in its list,
  by which positions of the list hold the same object, and by the ends of the branches
  on the path.  \<open>walk_local\<close> computes on these alone; the theorems relate it to
  \<open>search_local\<close> and the proofs about paths are done on it.
\<close>

type_synonym edge = "GraphNode \<times> GraphNode"

definition edge_of :: "store \<Rightarrow> ref \<Rightarrow> edge" where
  "edge_of h r = (src_node (h ! r), dst_node (h ! r))"

definition valid_refs :: "store \<Rightarrow> ref list \<Rightarrow> bool" where
  "valid_refs h rs = list_all (\<lambda>r. r < length h) rs"

fun position :: "'a list \<Rightarrow> 'a \<Rightarrow> nat" where
  "position [] x = 0"
| "position (y # ys) x = (if y = x then 0 else Suc (position ys x))"

definition alias_classes :: "ref list \<Rightarrow> nat list" where
  \<comment> \<open>for every position the first position that holds the same object\<close>
  "alias_classes rs = map (position rs) rs"

definition mark :: "nat list \<Rightarrow> nat \<Rightarrow> GraphBranch list \<Rightarrow> GraphBranch list" where
  \<comment> \<open>the object at position \<open>j\<close> is set arrived, at all the positions that hold it\<close>
  "mark cls j vals =
     map (\<lambda>k. if cls ! k = cls ! j then (vals ! k)\<lparr>arrived := True\<rparr> else vals ! k)
       [0..<length vals]"

fun walk_loop ::
  "(GraphNode \<Rightarrow> edge list \<Rightarrow> GraphBranch list \<Rightarrow> edge list list \<Rightarrow> error + edge list list)
   \<Rightarrow> nat list \<Rightarrow> edge list \<Rightarrow> GraphBranch list \<Rightarrow> nat list \<Rightarrow> edge list list
   \<Rightarrow> error + edge list list" where
  "walk_loop recurse cls path vals [] paths = Inr paths"
| "walk_loop recurse cls path vals (i # rest) paths =
     (if arrived (vals ! i) then walk_loop recurse cls path vals rest paths
      else
        (case find (\<lambda>j. branch_eq (vals ! j) (vals ! i)) [0..<length vals] of
           None \<Rightarrow> Inl StopIteration
         | Some j \<Rightarrow>
             (case recurse (dst_node (vals ! j))
                     (path @ [(src_node (vals ! i), dst_node (vals ! i))])
                     (mark cls j vals) paths of
                Inl e \<Rightarrow> Inl e
              | Inr paths' \<Rightarrow> walk_loop recurse cls path vals rest paths')))"

primrec walk_local ::
  "nat \<Rightarrow> GraphNode \<Rightarrow> nat list \<Rightarrow> GraphNode \<Rightarrow> edge list \<Rightarrow> GraphBranch list
   \<Rightarrow> edge list list \<Rightarrow> error + edge list list" where
  "walk_local 0 dst cls node path vals paths = Inl RecursionError"
| "walk_local (Suc depth) dst cls node path vals paths =
     walk_loop (walk_local depth dst cls) cls path vals
       (filter (\<lambda>i. src_node (vals ! i) = node) [0..<length vals])
       (if node = dst \<and> length path > 0 then paths @ [path] else paths)"

text \<open>
  A result of the search on the store against a result without it: the same exception, or
  a store that has only grown, the old paths followed by new ones, every path made of
  references into the store, and the same paths read as lists of edges.
\<close>

definition abstracts ::
  "store \<Rightarrow> ref list list \<Rightarrow> error + store \<times> ref list list \<Rightarrow> error + edge list list
   \<Rightarrow> bool" where
  "abstracts h paths concrete abstract =
     (case concrete of
        Inl e \<Rightarrow> abstract = Inl e
      | Inr (h', paths') \<Rightarrow>
          (\<exists>ext. h' = h @ ext) \<and> (\<exists>new. paths' = paths @ new)
          \<and> list_all (valid_refs h') paths'
          \<and> abstract = Inr (map (map (edge_of h')) paths'))"

text \<open>
  A path \<open>p\<close> that a call at \<open>node\<close> with the path so far \<open>path\<close> may add: it continues
  \<open>path\<close>, is not empty, ends at \<open>dst\<close>, and what it adds to \<open>path\<close> starts at \<open>node\<close>.
  \<open>returns_visits\<close>: with a path, the list holds every start of it that is at least as long
  as \<open>path\<close>, not empty, and ends at \<open>dst\<close>.
\<close>

definition completes :: "GraphNode \<Rightarrow> GraphNode \<Rightarrow> edge list \<Rightarrow> edge list \<Rightarrow> bool" where
  "completes node dst path p =
     (\<exists>q. p = path @ q \<and> p \<noteq> [] \<and> snd (last p) = dst \<and> (q \<noteq> [] \<longrightarrow> fst (hd q) = node))"

definition returns_visits :: "GraphNode \<Rightarrow> nat \<Rightarrow> edge list list \<Rightarrow> bool" where
  "returns_visits dst n new =
     (\<forall>p \<in> set new. \<forall>k. n \<le> k \<and> 0 < k \<and> k \<le> length p \<and> snd (p ! (k - 1)) = dst
        \<longrightarrow> take k p \<in> set new)"

text \<open>
  The paths of a result read as lists of (source, destination): two lists of paths are
  equal in Python when these are, since \<open>GraphBranch.__eq__\<close> compares the two ends.
\<close>

definition path_edges :: "error + store \<times> ref list list \<Rightarrow> error + edge list list" where
  "path_edges result =
     (case result of
        Inl e \<Rightarrow> Inl e
      | Inr (h, paths) \<Rightarrow> Inr (map (map (edge_of h)) paths))"


text \<open>
  Walks of the graph.  \<open>is_walk node q\<close>: the edges of \<open>q\<close> follow one another, the first
  leaving \<open>node\<close>.  \<open>trail es a b q\<close>: \<open>q\<close> is a non-empty walk from \<open>a\<close> to \<open>b\<close> over edges
  of \<open>es\<close> that takes no edge twice; it may pass through \<open>b\<close> any number of times before
  its end.
\<close>

fun is_walk :: "GraphNode \<Rightarrow> edge list \<Rightarrow> bool" where
  "is_walk node [] = True"
| "is_walk node (e # es) = (fst e = node \<and> is_walk (snd e) es)"

definition trail :: "edge list \<Rightarrow> GraphNode \<Rightarrow> GraphNode \<Rightarrow> edge list \<Rightarrow> bool" where
  "trail es a b q =
     (q \<noteq> [] \<and> is_walk a q \<and> snd (last q) = b \<and> distinct q \<and> set q \<subseteq> set es)"

text \<open>
  \<open>follows cls node vals ks\<close>: the node reached from \<open>node\<close> by taking the branches at the
  positions \<open>ks\<close> of the list one after the other, where a branch can be taken when it
  leaves the node reached so far and is not arrived, and taking it sets arrived the first
  branch of the list equal to it, as the loop of \<open>search_local\<close> does; \<open>None\<close> when some
  branch of \<open>ks\<close> cannot be taken.  Nothing here looks at whether a node reached on the
  way is the destination.
\<close>

fun follows :: "nat list \<Rightarrow> GraphNode \<Rightarrow> GraphBranch list \<Rightarrow> nat list \<Rightarrow> GraphNode option" where
  "follows cls node vals [] = Some node"
| "follows cls node vals (i # rest) =
     (if i < length vals \<and> src_node (vals ! i) = node \<and> \<not> arrived (vals ! i) then
        (case find (\<lambda>j. branch_eq (vals ! j) (vals ! i)) [0..<length vals] of
           None \<Rightarrow> None
         | Some j \<Rightarrow> follows cls (dst_node (vals ! j)) (mark cls j vals) rest)
      else None)"
section \<open>Composing variable passing records\<close>

text \<open>
  Modelled from the spec: the record container (\<open>drop_columns\<close>, \<open>rename_columns\<close>,
  \<open>sort\<close>) and \<open>merge_sequencial\<close> are not part of the sources at hand.  Dropping and
  renaming act on the columns of every record.  The sequential join matches each left
  record with the right record whose stamp is the earliest one no earlier than the left
  stamp, and keeps a left record without such a partner as it is (left-outer).  Sorting is
  stable and ascending in the key; a record without the key sorts first.
\<close>

definition drop_columns :: "Record list \<Rightarrow> string list \<Rightarrow> Record list" where
  "drop_columns records cols = map (filter (\<lambda>(k, v). k \<notin> set cols)) records"

definition rename_key :: "(string \<times> string) list \<Rightarrow> string \<Rightarrow> string" where
  "rename_key renames k = (case map_of renames k of Some k' \<Rightarrow> k' | None \<Rightarrow> k)"

definition rename_columns :: "Record list \<Rightarrow> (string \<times> string) list \<Rightarrow> Record list" where
  "rename_columns records renames = map (map (\<lambda>(k, v). (rename_key renames k, v))) records"

fun earliest_no_earlier :: "string \<Rightarrow> int \<Rightarrow> Record list \<Rightarrow> Record option" where
  "earliest_no_earlier stamp_key t [] = None"
| "earliest_no_earlier stamp_key t (r # rs) =
     (case get r stamp_key of
        None \<Rightarrow> earliest_no_earlier stamp_key t rs
      | Some s \<Rightarrow>
          if s < t then earliest_no_earlier stamp_key t rs
          else (case earliest_no_earlier stamp_key t rs of
                  None \<Rightarrow> Some r
                | Some r' \<Rightarrow>
                    (case get r' stamp_key of
                       Some s' \<Rightarrow> if s' < s then Some r' else Some r
                     | None \<Rightarrow> Some r)))"

definition merge_sequencial ::
  "Record list \<Rightarrow> Record list \<Rightarrow> string \<Rightarrow> string \<Rightarrow> Record list" where
  \<comment> \<open>\<open>join_key=None\<close>, \<open>how='left'\<close>\<close>
  "merge_sequencial left_records right_records left_stamp_key right_stamp_key =
     map (\<lambda>l. case get l left_stamp_key of
                None \<Rightarrow> l
              | Some t \<Rightarrow>
                  (case earliest_no_earlier right_stamp_key t right_records of
                     None \<Rightarrow> l
                   | Some r \<Rightarrow> l @ r))
       left_records"

definition sort_records :: "Record list \<Rightarrow> string \<Rightarrow> Record list" where
  "sort_records records key = sort_key (\<lambda>r. get r key) records"

text \<open>
  \<open>Lttng.compose_variable_passing_records\<close>.  The two arguments are the records that
  \<open>get_callback_records\<close> returns for the write callback and for the read callback.
\<close>

definition compose_variable_passing_records ::
  "Record list \<Rightarrow> Record list \<Rightarrow> Record list" where
  "compose_variable_passing_records write_callback_records read_callback_records =
     (let read_records = drop_columns read_callback_records [''callback_end_timestamp''];
          read_records = rename_columns read_records
                           [(''callback_object'', ''read_callback_object'')];
          write_records = rename_columns write_callback_records
                            [(''callback_object'', ''write_callback_object'')];
          write_records = drop_columns write_records [''callback_start_timestamp''];
          merged_records = merge_sequencial write_records read_records
                             ''callback_end_timestamp'' ''callback_start_timestamp'';
          merged_records = sort_records merged_records ''callback_end_timestamp''
      in drop_columns merged_records [''read_callback_object'', ''write_callback_object''])"

text \<open>
  What is left of a write record that found no read: its columns without the start
  timestamp and without the renamed identity.
\<close>

definition write_side :: "Record \<Rightarrow> Record" where
  "write_side w =
     filter (\<lambda>(k, v). k \<notin> set [''read_callback_object'', ''write_callback_object''])
       (filter (\<lambda>(k, v). k \<notin> set [''callback_start_timestamp''])
          (map (\<lambda>(k, v). (rename_key [(''callback_object'', ''write_callback_object'')] k, v))
             w))"

definition has_later_read :: "int \<Rightarrow> Record list \<Rightarrow> bool" where
  "has_later_read t read_callback_records =
     list_ex (\<lambda>r. case get r ''callback_start_timestamp'' of
                     Some s \<Rightarrow> t \<le> s | None \<Rightarrow> False)
       read_callback_records"

section \<open>Example inputs\<close>

text \<open>Concrete traces on which the theorems below are run.\<close>

definition no_table :: DataFrame where
  \<comment> \<open>a table that was never recorded: no columns, no rows\<close>
  "no_table = \<lparr>df_columns = [], df_rows = []\<rparr>"

definition one_node_table :: DataFrame where
  "one_node_table =
     \<lparr>df_columns = [''node_handle'', ''namespace'', ''name''],
      df_rows = [(0, [(''node_handle'', I 5), (''namespace'', S ''/''),
                      (''name'', S ''talker'')])]\<rparr>"

definition regrouped_table :: DataFrame where
  \<comment> \<open>callback group 1 is seen on executor 10, then on executor 20, then on 10 again\<close>
  "regrouped_table =
     \<lparr>df_columns = [''callback_group_addr'', ''timestamp'', ''group_type_name'',
                     ''executor_addr''],
      df_rows =
        [(0, [(''callback_group_addr'', I 1), (''timestamp'', I 100),
              (''group_type_name'', S ''mutually_exclusive''), (''executor_addr'', I 10)]),
         (1, [(''callback_group_addr'', I 1), (''timestamp'', I 200),
              (''group_type_name'', S ''mutually_exclusive''), (''executor_addr'', I 20)]),
         (2, [(''callback_group_addr'', I 1), (''timestamp'', I 300),
              (''group_type_name'', S ''mutually_exclusive''), (''executor_addr'', I 10)])]\<rparr>"

definition sparse_model :: Ros2DataModel where
  \<comment> \<open>a trace with one node and the callback group rows above, and nothing else\<close>
  "sparse_model =
     \<lparr>nodes = one_node_table, timers = no_table, timer_node_links = no_table,
      callback_objects = no_table, callback_symbols = no_table,
      callback_group_timer = no_table, subscriptions = no_table,
      subscription_objects = no_table, callback_group_subscription = no_table,
      callback_groups = regrouped_table, callback_groups_static = no_table,
      executors = no_table, executors_static = no_table, publishers = no_table\<rparr>"

definition sparse_formatted :: DataFrameFormatted where
  \<comment> \<open>formatted tables whose node table is missing\<close>
  "sparse_formatted =
     \<lparr>executor_df = empty_frame executor_columns,
      nodes_df = no_table,
      timer_callbacks_df = empty_frame timer_callbacks_columns,
      subscription_callbacks_df = empty_frame sub_callbacks_columns,
      callback_groups_df = empty_frame cbg_columns,
      publishers_df = empty_frame publisher_columns\<rparr>"

definition example_write_records :: "Record list" where
  \<comment> \<open>two runs of the write callback, the later one listed first\<close>
  "example_write_records =
     [[(''callback_object'', 1), (''callback_start_timestamp'', 25),
       (''callback_end_timestamp'', 30)],
      [(''callback_object'', 1), (''callback_start_timestamp'', 5),
       (''callback_end_timestamp'', 10)]]"

definition example_read_records :: "Record list" where
  "example_read_records =
     [[(''callback_object'', 2), (''callback_start_timestamp'', 12),
       (''callback_end_timestamp'', 14)],
      [(''callback_object'', 2), (''callback_start_timestamp'', 20),
       (''callback_end_timestamp'', 22)]]"

definition node_A :: GraphNode where "node_A = GraphNode ''A''"
definition node_B :: GraphNode where "node_B = GraphNode ''B''"
definition node_C :: GraphNode where "node_C = GraphNode ''C''"

definition cycle_store :: store where
  \<comment> \<open>the cycle A -> B -> A\<close>
  "cycle_store = [GraphBranch_init node_A node_B, GraphBranch_init node_B node_A]"

definition doubled_store :: store where
  \<comment> \<open>two branches A -> B (two objects with equal ends) and one branch B -> A\<close>
  "doubled_store =
     [GraphBranch_init node_A node_B, GraphBranch_init node_A node_B,
      GraphBranch_init node_B node_A]"

definition talker_timer :: CallbackBase where
  "talker_timer = \<lparr>callback_unique_name = ''/talker/timer_callback_0''\<rparr>"

definition listener_subscription :: CallbackBase where
  "listener_subscription = \<lparr>callback_unique_name = ''/listener/subscription_callback_0''\<rparr>"

definition talker_to_listener :: Communication where
  "talker_to_listener =
     \<lparr>callback_publish = Some talker_timer, callback_subscription = listener_subscription\<rparr>"

definition figure_eight_store :: store where
  \<comment> \<open>two cycles through A: A -> B -> A and A -> C -> A\<close>
  "figure_eight_store =
     [GraphBranch_init node_A node_B, GraphBranch_init node_B node_A,
      GraphBranch_init node_A node_C, GraphBranch_init node_C node_A]"

definition two_cycles_store :: store where
  \<comment> \<open>A -> B and B -> A, each twice\<close>
  "two_cycles_store =
     [GraphBranch_init node_A node_B, GraphBranch_init node_A node_B,
      GraphBranch_init node_B node_A, GraphBranch_init node_B node_A]"

section \<open>Theorems\<close>

subsection \<open>The binder\<close>

text \<open>
  C5.  \<open>can_bind\<close> answers False for every node, whatever the callback groups of the node
  are: the first statement of its body returns, and the test for exactly one
  non-reentrant group behind it is never reached.  So it is True on no node at all (in
  particular only on nodes with exactly one non-reentrant group), and its callers in
  \<open>LttngInfo\<close> return the callbacks as loaded, never passed through the binder.
\<close>

theorem can_bind_always_False:
  "can_bind callback_groups_of node = False
   \<and> get_timer_callbacks info node =
       (case nv_node_id node of
          None \<Rightarrow> Inl AssertionError
        | Some nid \<Rightarrow> Inr (get_timer_cbs_without_pub info nid))
   \<and> get_subscription_callback_values info node =
       (case nv_node_id node of
          None \<Rightarrow> Inl AssertionError
        | Some nid \<Rightarrow> Inr (get_sub_cbs_without_pub info nid))"
  by (simp add: can_bind_def get_timer_callbacks_def get_subscription_callback_values_def
      split: option.splits)

lemma inter_loop_True:
  "list_all (\<lambda>q. \<not> entirely_after pt q) pre \<Longrightarrow> inside_interval pt r
   \<Longrightarrow> is_consistent_inter_loop pt (pre @ r # post) = Some True"
  by (induction pre)
     (auto simp: inside_interval_def entirely_after_def split: option.splits)

lemma intra_loop_True:
  "list_all (\<lambda>q. \<not> entirely_after pt q) pre \<Longrightarrow> inside_interval pt r
   \<Longrightarrow> is_consistent_intra_loop pt (pre @ r # post)"
  by (induction pre)
     (auto simp: inside_interval_def entirely_after_def split: option.splits)

lemma inter_loop_ended:
  "list_all (ended_before pt) rs \<Longrightarrow> is_consistent_inter_loop pt rs = None"
  by (induction rs) (auto simp: ended_before_def split: option.splits)

lemma intra_loop_ended:
  "list_all (ended_before pt) rs \<Longrightarrow> \<not> is_consistent_intra_loop pt rs"
  by (induction rs) (auto simp: ended_before_def split: option.splits)

text \<open>
  C6 (as amended).  Let the publish time of the publisher be defined.  If it lies strictly
  inside a recorded execution interval of the callback (a record of its
  \<open>callback_object\<close>, or for a subscription of its \<open>callback_object_intra\<close>) and no
  record scanned before that one lies entirely after the publish time, then
  \<open>_is_consistent\<close> is True.  If every recorded execution interval of the callback has ended
  strictly before the publish time, it is False.
\<close>

theorem is_consistent_by_interval:
  assumes "get_publish_time source publisher = Some pt"
  shows "(executions_of source (Some (callback_object_of cb)) = pre @ r # post
            \<and> list_all (\<lambda>q. \<not> entirely_after pt q) pre \<and> inside_interval pt r
          \<longrightarrow> is_consistent source publisher cb)
       \<and> (cb = Inr sub_cb
            \<and> executions_of source (callback_object_intra sub_cb) = pre' @ r' # post'
            \<and> list_all (\<lambda>q. \<not> entirely_after pt q) pre' \<and> inside_interval pt r'
          \<longrightarrow> is_consistent source publisher cb)
       \<and> (list_all (ended_before pt) (executions_of source (Some (callback_object_of cb)))
            \<and> (case cb of
                  Inl timer_cb \<Rightarrow> True
                | Inr s \<Rightarrow> list_all (ended_before pt)
                             (executions_of source (callback_object_intra s)))
          \<longrightarrow> \<not> is_consistent source publisher cb)"
proof (intro conjI impI)
  assume h: "executions_of source (Some (callback_object_of cb)) = pre @ r # post
     \<and> list_all (\<lambda>q. \<not> entirely_after pt q) pre \<and> inside_interval pt r"
  then have "is_consistent_inter_loop pt (executions_of source (Some (callback_object_of cb)))
     = Some True"
    by (simp add: inter_loop_True)
  then show "is_consistent source publisher cb"
    using assms
    by (cases cb)
       (simp_all add: is_consistent_def is_consistent_inter_def executions_of_def
          callback_object_of_def)
next
  assume h: "cb = Inr sub_cb
     \<and> executions_of source (callback_object_intra sub_cb) = pre' @ r' # post'
     \<and> list_all (\<lambda>q. \<not> entirely_after pt q) pre' \<and> inside_interval pt r'"
  then have "is_consistent_intra_loop pt (executions_of source (callback_object_intra sub_cb))"
    by (simp add: intra_loop_True)
  then show "is_consistent source publisher cb"
    using assms h
    by (simp add: is_consistent_def is_consistent_intra_def executions_of_def)
next
  assume h: "list_all (ended_before pt) (executions_of source (Some (callback_object_of cb)))
     \<and> (case cb of
           Inl timer_cb \<Rightarrow> True
         | Inr s \<Rightarrow> list_all (ended_before pt)
                      (executions_of source (callback_object_intra s)))"
  then have inter: "is_consistent_inter_loop pt
      (executions_of source (Some (callback_object_of cb))) = None"
    by (simp add: inter_loop_ended)
  show "\<not> is_consistent source publisher cb"
  proof (cases cb)
    case (Inl timer_cb)
    then show ?thesis
      using assms inter
      by (simp add: is_consistent_def is_consistent_inter_def executions_of_def
          callback_object_of_def)
  next
    case (Inr s)
    with h have "\<not> is_consistent_intra_loop pt
        (executions_of source (callback_object_intra s))"
      by (simp add: intra_loop_ended)
    with Inr show ?thesis
      using assms inter
      by (simp add: is_consistent_def is_consistent_inter_def is_consistent_intra_def
          executions_of_def callback_object_of_def)
  qed
qed

lemmas binder_eval =
  is_consistent_def is_consistent_inter_def is_consistent_intra_def get_publish_time_def
  get_def select_record_index_def TARGET_RECORD_MAX_INDEX_def executions_of_def
  inside_interval_def entirely_after_def ended_before_def callback_object_of_def

theorem is_consistent_by_interval_witness:
  "is_consistent
     \<lparr>callback_records =
        [[(''callback_object'', 7), (''callback_start_timestamp'', 1),
          (''callback_end_timestamp'', 5)],
         [(''callback_object'', 7), (''callback_start_timestamp'', 10),
          (''callback_end_timestamp'', 20)],
         [(''callback_object'', 8), (''callback_start_timestamp'', 11),
          (''callback_end_timestamp'', 19)]],
      inter_proc_comm_records =
        [[(''publisher_handle'', 4), (''rclcpp_publish_timestamp'', 12)]],
      intra_proc_comm_records = []\<rparr>
     \<lparr>pub_node_name = ''/n'', topic_name = ''/t'', pub_node_id = ''/n_1'',
      callback_ids = None, publisher_handle = 4\<rparr>
     (Inl \<lparr>callback_id = ''timer_callback_7'', node_id = ''/n_1'', node_name = ''/n'',
           symbol = ''f'', publish_topic_names = None, callback_object = 7,
           period_ns = 100\<rparr>)
   \<and> is_consistent
     \<lparr>callback_records =
        [[(''callback_object'', 7), (''callback_start_timestamp'', 1),
          (''callback_end_timestamp'', 5)],
         [(''callback_object'', 7), (''callback_start_timestamp'', 10),
          (''callback_end_timestamp'', 20)],
         [(''callback_object'', 8), (''callback_start_timestamp'', 11),
          (''callback_end_timestamp'', 19)]],
      inter_proc_comm_records =
        [[(''publisher_handle'', 4), (''rclcpp_publish_timestamp'', 12)]],
      intra_proc_comm_records = []\<rparr>
     \<lparr>pub_node_name = ''/n'', topic_name = ''/t'', pub_node_id = ''/n_1'',
      callback_ids = None, publisher_handle = 4\<rparr>
     (Inr \<lparr>callback_id = ''subscription_callback_9'', node_id = ''/n_1'',
           node_name = ''/n'', symbol = ''g'', publish_topic_names = None,
           callback_object = 9, subscribe_topic_name = ''/u'',
           callback_object_intra = Some 8\<rparr>)
   \<and> \<not> is_consistent
     \<lparr>callback_records =
        [[(''callback_object'', 7), (''callback_start_timestamp'', 1),
          (''callback_end_timestamp'', 5)],
         [(''callback_object'', 7), (''callback_start_timestamp'', 10),
          (''callback_end_timestamp'', 20)]],
      inter_proc_comm_records =
        [[(''publisher_handle'', 4), (''rclcpp_publish_timestamp'', 30)]],
      intra_proc_comm_records = []\<rparr>
     \<lparr>pub_node_name = ''/n'', topic_name = ''/t'', pub_node_id = ''/n_1'',
      callback_ids = None, publisher_handle = 4\<rparr>
     (Inl \<lparr>callback_id = ''timer_callback_7'', node_id = ''/n_1'', node_name = ''/n'',
           symbol = ''f'', publish_topic_names = None, callback_object = 7,
           period_ns = 100\<rparr>)"
proof -
  let ?recs = "[[(''callback_object'', 7), (''callback_start_timestamp'', 1),
          (''callback_end_timestamp'', 5)],
         [(''callback_object'', 7), (''callback_start_timestamp'', 10),
          (''callback_end_timestamp'', 20)],
         [(''callback_object'', 8), (''callback_start_timestamp'', 11),
          (''callback_end_timestamp'', 19)]] :: Record list"
  let ?src = "\<lparr>callback_records = ?recs,
      inter_proc_comm_records =
        [[(''publisher_handle'', 4), (''rclcpp_publish_timestamp'', 12)]],
      intra_proc_comm_records = []\<rparr>"
  let ?src2 = "\<lparr>callback_records = take 2 ?recs,
      inter_proc_comm_records =
        [[(''publisher_handle'', 4), (''rclcpp_publish_timestamp'', 30)]],
      intra_proc_comm_records = []\<rparr>"
  let ?pub = "\<lparr>pub_node_name = ''/n'', topic_name = ''/t'', pub_node_id = ''/n_1'',
      callback_ids = None, publisher_handle = 4\<rparr>"
  let ?timer = "\<lparr>callback_id = ''timer_callback_7'', node_id = ''/n_1'', node_name = ''/n'',
           symbol = ''f'', publish_topic_names = None, callback_object = 7,
           period_ns = 100\<rparr>"
  let ?sub = "\<lparr>callback_id = ''subscription_callback_9'', node_id = ''/n_1'',
           node_name = ''/n'', symbol = ''g'', publish_topic_names = None,
           callback_object = 9, subscribe_topic_name = ''/u'',
           callback_object_intra = Some 8\<rparr>"
  have t1: "get_publish_time ?src ?pub = Some 12"
    by (simp add: binder_eval)
  have t2: "get_publish_time ?src2 ?pub = Some 30"
    by (simp add: binder_eval)
  note a = is_consistent_by_interval [OF t1, where cb = "Inl ?timer" and pre = "[?recs ! 0]"
      and r = "?recs ! 1" and post = "[]"]
  note b = is_consistent_by_interval [OF t1, where cb = "Inr ?sub" and sub_cb = "?sub"
      and pre' = "[]" and r' = "?recs ! 2" and post' = "[]"]
  note c = is_consistent_by_interval [OF t2, where cb = "Inl ?timer"]
  have "is_consistent ?src ?pub (Inl ?timer)"
    using a by (simp add: executions_of_def inside_interval_def entirely_after_def get_def callback_object_of_def)
  moreover have "is_consistent ?src ?pub (Inr ?sub)"
    using b by (simp add: executions_of_def inside_interval_def entirely_after_def get_def callback_object_of_def)
  moreover have "\<not> is_consistent ?src2 ?pub (Inl ?timer)"
    using c by (simp add: executions_of_def ended_before_def get_def callback_object_of_def)
  ultimately show ?thesis by simp
qed

text \<open>
  C6 as stated fails when a record that lies entirely after the publish time is scanned
  first: the records (10, 20), (1, 5) of one timer callback and the publish time 3, which
  is strictly inside (1, 5).  The loop returns False at (10, 20).
\<close>

theorem is_consistent_unordered_counterexample:
  "get_publish_time
     \<lparr>callback_records =
        [[(''callback_object'', 7), (''callback_start_timestamp'', 10),
          (''callback_end_timestamp'', 20)],
         [(''callback_object'', 7), (''callback_start_timestamp'', 1),
          (''callback_end_timestamp'', 5)]],
      inter_proc_comm_records =
        [[(''publisher_handle'', 4), (''rclcpp_publish_timestamp'', 3)]],
      intra_proc_comm_records = []\<rparr>
     \<lparr>pub_node_name = ''/n'', topic_name = ''/t'', pub_node_id = ''/n_1'',
      callback_ids = None, publisher_handle = 4\<rparr> = Some 3
   \<and> list_ex (inside_interval 3)
       (executions_of
          \<lparr>callback_records =
             [[(''callback_object'', 7), (''callback_start_timestamp'', 10),
               (''callback_end_timestamp'', 20)],
              [(''callback_object'', 7), (''callback_start_timestamp'', 1),
               (''callback_end_timestamp'', 5)]],
           inter_proc_comm_records =
             [[(''publisher_handle'', 4), (''rclcpp_publish_timestamp'', 3)]],
           intra_proc_comm_records = []\<rparr>
          (Some 7))
   \<and> is_consistent
     \<lparr>callback_records =
        [[(''callback_object'', 7), (''callback_start_timestamp'', 10),
          (''callback_end_timestamp'', 20)],
         [(''callback_object'', 7), (''callback_start_timestamp'', 1),
          (''callback_end_timestamp'', 5)]],
      inter_proc_comm_records =
        [[(''publisher_handle'', 4), (''rclcpp_publish_timestamp'', 3)]],
      intra_proc_comm_records = []\<rparr>
     \<lparr>pub_node_name = ''/n'', topic_name = ''/t'', pub_node_id = ''/n_1'',
      callback_ids = None, publisher_handle = 4\<rparr>
     (Inl \<lparr>callback_id = ''timer_callback_7'', node_id = ''/n_1'', node_name = ''/n'',
           symbol = ''f'', publish_topic_names = None, callback_object = 7,
           period_ns = 100\<rparr>) = False"
  by (simp add: binder_eval)

text \<open>
  C4 at a failing input.  One node has the publishers \<open>/a\<close> (publishing at 15) and \<open>/b\<close>
  (publishing at 35) and two callbacks, the first running during (10, 20), the second
  during (30, 40).  The second callback is consistent with publisher \<open>/b\<close>, yet one call
  binds the first callback to \<open>/a\<close> only: \<open>break\<close> leaves the loop over all pairs, and the
  second callback keeps the empty tuple.  Both binder functions behave the same.
\<close>

theorem bind_stops_after_first_pair:
  "(let source = \<lparr>callback_records =
          [[(''callback_object'', 1), (''callback_start_timestamp'', 10),
            (''callback_end_timestamp'', 20)],
           [(''callback_object'', 2), (''callback_start_timestamp'', 30),
            (''callback_end_timestamp'', 40)]],
        inter_proc_comm_records =
          [[(''publisher_handle'', 100), (''rclcpp_publish_timestamp'', 15)],
           [(''publisher_handle'', 200), (''rclcpp_publish_timestamp'', 35)]],
        intra_proc_comm_records = []\<rparr>;
      pA = \<lparr>pub_node_name = ''/n'', topic_name = ''/a'', pub_node_id = ''/n_1'',
            callback_ids = None, publisher_handle = 100\<rparr>;
      pB = \<lparr>pub_node_name = ''/n'', topic_name = ''/b'', pub_node_id = ''/n_1'',
            callback_ids = None, publisher_handle = 200\<rparr>;
      s1 = \<lparr>callback_id = ''subscription_callback_1'', node_id = ''/n_1'',
            node_name = ''/n'', symbol = ''f'', publish_topic_names = None,
            callback_object = 1, subscribe_topic_name = ''/x'',
            callback_object_intra = None\<rparr>;
      s2 = \<lparr>callback_id = ''subscription_callback_2'', node_id = ''/n_1'',
            node_name = ''/n'', symbol = ''g'', publish_topic_names = None,
            callback_object = 2, subscribe_topic_name = ''/y'',
            callback_object_intra = None\<rparr>;
      t1 = \<lparr>callback_id = ''timer_callback_1'', node_id = ''/n_1'',
            node_name = ''/n'', symbol = ''f'', publish_topic_names = Some [],
            callback_object = 1, period_ns = 100\<rparr>;
      t2 = \<lparr>callback_id = ''timer_callback_2'', node_id = ''/n_1'',
            node_name = ''/n'', symbol = ''g'', publish_topic_names = Some [],
            callback_object = 2, period_ns = 100\<rparr>
    in bind_pub_topics_and_sub_cbs source [pA, pB] [s1, s2]
         = Inr [s1\<lparr>publish_topic_names := Some [''/a'']\<rparr>,
                s2\<lparr>publish_topic_names := Some []\<rparr>]
       \<and> is_consistent source pB (Inr (s2\<lparr>publish_topic_names := Some []\<rparr>))
       \<and> bind_pub_topics_and_timer_cbs source [pA, pB] [t1, t2]
         = Inr [t1\<lparr>publish_topic_names := Some [''/a'']\<rparr>, t2]
       \<and> is_consistent source pB (Inl t2))"
  by (simp add: bind_pub_topics_and_sub_cbs_def bind_pub_topics_and_timer_cbs_def
      update_sub_cb_publish_topics_def update_timer_cb_publish_topics_def binder_eval
      upt_rec)

subsection \<open>The tables\<close>

lemma try_except_not_KeyError: "try_except_KeyError body h \<noteq> Inl KeyError"
  by (auto simp: try_except_KeyError_def split: sum.splits error.splits)

lemma try_except_KeyError_handler:
  "body = Inl KeyError \<Longrightarrow> try_except_KeyError body h = Inr h"
  by (simp add: try_except_KeyError_def)

lemma try_except_total:
  "raises_only_KeyError body \<Longrightarrow> \<exists>x. try_except_KeyError body h = Inr x"
  by (auto simp: try_except_KeyError_def raises_only_KeyError_def split: sum.splits error.splits)

lemma only_then_do:
  assumes "raises_only_KeyError r" and "\<And>x. raises_only_KeyError (f x)"
  shows "raises_only_KeyError (then_do r f)"
proof (cases r)
  case (Inl e)
  then show ?thesis using assms(1) by (simp add: then_do_def raises_only_KeyError_def)
next
  case (Inr x)
  then show ?thesis using assms(2) [of x] by (simp add: then_do_def)
qed

lemma only_Inr [simp]: "raises_only_KeyError (Inr x)"
  by (simp add: raises_only_KeyError_def)

lemma only_at [simp]: "raises_only_KeyError (at r c)"
  by (simp add: raises_only_KeyError_def at_def split: option.splits)

lemma only_merge [simp]: "raises_only_KeyError (merge a b k)"
  by (simp add: raises_only_KeyError_def merge_def pd_merge_def Let_def)

lemma only_select [simp]: "raises_only_KeyError (select_columns df cs)"
  by (simp add: raises_only_KeyError_def select_columns_def)

lemma only_groupby [simp]: "raises_only_KeyError (groupby df k)"
  by (simp add: raises_only_KeyError_def groupby_def)

lemma only_add_column_rows:
  "(\<And>r. raises_only_KeyError (rule r))
   \<Longrightarrow> raises_only_KeyError (add_column_rows c rule rows)"
proof (induction rows)
  case Nil
  then show ?case by simp
next
  case (Cons a rows)
  obtain i r where a: "a = (i, r)" by (cases a)
  have 1: "raises_only_KeyError (rule (filter (\<lambda>(c', v). c' \<noteq> c) r @ [(c, S '''')]))"
    using Cons.prems by blast
  have 2: "raises_only_KeyError (add_column_rows c rule rows)"
    using Cons by blast
  show ?case
    using 1 2 by (auto simp: a raises_only_KeyError_def split: sum.splits)
qed

lemma only_add_column:
  "(\<And>r. raises_only_KeyError (rule r)) \<Longrightarrow> raises_only_KeyError (add_column df c rule)"
  using only_add_column_rows [of rule c "df_rows df"]
  by (auto simp: add_column_def raises_only_KeyError_def split: sum.splits)

lemma only_timer_try: "raises_only_KeyError (build_timer_callbacks_df_try data)"
  unfolding build_timer_callbacks_df_try_def
  by (intro only_then_do only_merge only_select only_add_column)
     (simp add: timer_callback_id_def only_then_do)

lemma only_subscription_records: "raises_only_KeyError (subscription_records groups)"
proof (induction groups)
  case Nil
  then show ?case by simp
next
  case (Cons a groups)
  obtain k grp where a: "a = (k, grp)" by (cases a)
  show ?case
    unfolding a subscription_records.simps
    by (intro only_then_do) (auto intro!: only_then_do simp: Cons)
qed

lemma only_sub_try: "raises_only_KeyError (build_sub_callbacks_df_try data)"
  unfolding build_sub_callbacks_df_try_def format_subscription_callback_object_def
  by (intro only_then_do only_merge only_select only_add_column only_groupby
        only_subscription_records only_Inr)
     (simp add: subscription_callback_id_def only_then_do)

lemma timer_total: "\<exists>df. build_timer_callbacks_df data = Inr df"
  unfolding build_timer_callbacks_df_def by (rule try_except_total [OF only_timer_try])

lemma sub_total: "\<exists>df. build_sub_callbacks_df data = Inr df"
  unfolding build_sub_callbacks_df_def by (rule try_except_total [OF only_sub_try])

lemma merge_missing_left:
  "key \<notin> set (df_columns a) \<Longrightarrow> merge a b key = Inl KeyError"
  by (simp add: merge_def pd_merge_def drop_columns_df_def)

lemma merge_missing_right:
  "key \<notin> set (df_columns b) \<Longrightarrow> merge a b key = Inl KeyError"
  by (simp add: merge_def pd_merge_def drop_columns_df_def)

lemmas frame_eval =
  build_cbg_df_def empty_frame_def then_do_def add_column_def to_callback_group_id_def
  at_def str_cell_def str_int_def ensure_columns_def cbg_columns_def select_columns_def
  drop_duplicates_def groupby_def int_keys_def drop_index_def reset_index_def
  range_index_def no_table_def one_node_table_def regrouped_table_def sparse_model_def
  sparse_formatted_def merge_def pd_merge_def drop_columns_df_def concat_frames_def
  try_except_KeyError_def build_timer_callbacks_df_def build_timer_callbacks_df_try_def
  build_sub_callbacks_df_def build_sub_callbacks_df_try_def
  format_subscription_callback_object_def rename_column_def
  build_executor_df_def build_nodes_df_def build_publisher_df_def
  executor_columns_def nodes_columns_def publisher_columns_def
  timer_callbacks_columns_def sub_callbacks_columns_def ns_and_node_name_def
  to_node_id_def DataFrameFormatted_init_def get_callback_groups_of_node_def
  get_callback_groups_try_def

text \<open>
  C7 at a failing input.  The raw rows bind callback group 1 to executor 10, then to
  executor 20, then to executor 10 again.  \<open>drop_duplicates\<close> removes the third row as a
  repetition of the first, so the last row of the group is the one of executor 20: the
  table keeps executor 20 although the last observed executor is 10.  The group has one
  row in the result, and one warning is logged.
\<close>

theorem cbg_keeps_an_earlier_executor:
  "callback_groups sparse_model = regrouped_table
   \<and> map (\<lambda>(i, r). map_of r ''executor_addr'') (df_rows regrouped_table)
       = [Some (I 10), Some (I 20), Some (I 10)]
   \<and> build_cbg_df sparse_model =
       Inr (\<lparr>df_columns = cbg_columns,
             df_rows = [(0, [(''callback_group_id'', S ''callback_group_1''),
                             (''callback_group_addr'', I 1),
                             (''group_type_name'', S ''mutually_exclusive''),
                             (''executor_addr'', I 20)])]\<rparr>,
            [Warning [I 10, I 20]])"
  by (simp add: frame_eval upt_rec)

text \<open>
  C8.  The builders of the timer callback table, of the subscription callback table and of
  the callback groups of a node return the empty table (the empty list) whenever the
  statements inside \<open>try\<close> raise KeyError, in particular when a table lacks the column
  that a join needs; they never raise KeyError themselves, and the two table builders
  always return a table.  The constructor of \<open>DataFrameFormatted\<close> therefore fails only
  if one of the four other builders fails, and each table it stores is the result of its
  own builder.
\<close>

theorem missing_key_degrades_to_empty:
  "(build_timer_callbacks_df_try data = Inl KeyError
      \<longrightarrow> build_timer_callbacks_df data = Inr (empty_frame timer_callbacks_columns))
   \<and> (build_sub_callbacks_df_try data = Inl KeyError
      \<longrightarrow> build_sub_callbacks_df data = Inr (empty_frame sub_callbacks_columns))
   \<and> (get_callback_groups_try formatted id_to_topic nid = Inl KeyError
      \<longrightarrow> get_callback_groups_of_node formatted id_to_topic nid = Inr [])
   \<and> (''timer_handle'' \<notin> set (df_columns (timers data))
      \<longrightarrow> build_timer_callbacks_df data = Inr (empty_frame timer_callbacks_columns))
   \<and> (''subscription'' \<notin> set (df_columns (subscription_objects data))
      \<longrightarrow> build_sub_callbacks_df data = Inr (empty_frame sub_callbacks_columns))
   \<and> (''node_handle'' \<notin> set (df_columns (nodes_df formatted))
        \<and> set [''callback_group_addr'', ''callback_id'', ''node_handle'']
            \<subseteq> set (df_columns (timer_callbacks_df formatted))
      \<longrightarrow> get_callback_groups_of_node formatted id_to_topic nid = Inr [])
   \<and> (\<exists>t. build_timer_callbacks_df data = Inr t)
   \<and> (\<exists>s. build_sub_callbacks_df data = Inr s)
   \<and> get_callback_groups_of_node formatted id_to_topic nid \<noteq> Inl KeyError
   \<and> (build_executor_df data = Inr e \<and> build_nodes_df data = Inr n
        \<and> build_cbg_df data = Inr (c, log) \<and> build_publisher_df data = Inr p
      \<longrightarrow> (\<exists>t s. build_timer_callbacks_df data = Inr t
                \<and> build_sub_callbacks_df data = Inr s
                \<and> DataFrameFormatted_init data =
                    Inr (\<lparr>executor_df = e, nodes_df = n, timer_callbacks_df = t,
                          subscription_callbacks_df = s, callback_groups_df = c,
                          publishers_df = p\<rparr>, log)))"
proof (intro conjI impI)
  show "build_timer_callbacks_df data = Inr (empty_frame timer_callbacks_columns)"
    if "build_timer_callbacks_df_try data = Inl KeyError"
    using that by (simp add: build_timer_callbacks_df_def try_except_KeyError_handler)
  show "build_sub_callbacks_df data = Inr (empty_frame sub_callbacks_columns)"
    if "build_sub_callbacks_df_try data = Inl KeyError"
    using that by (simp add: build_sub_callbacks_df_def try_except_KeyError_handler)
  show "get_callback_groups_of_node formatted id_to_topic nid = Inr []"
    if "get_callback_groups_try formatted id_to_topic nid = Inl KeyError"
    using that by (simp add: get_callback_groups_of_node_def try_except_KeyError_handler)
  show "build_timer_callbacks_df data = Inr (empty_frame timer_callbacks_columns)"
    if "''timer_handle'' \<notin> set (df_columns (timers data))"
    using merge_missing_left [OF that]
    by (simp add: build_timer_callbacks_df_def build_timer_callbacks_df_try_def then_do_def
        try_except_KeyError_handler)
  show "build_sub_callbacks_df data = Inr (empty_frame sub_callbacks_columns)"
    if "''subscription'' \<notin> set (df_columns (subscription_objects data))"
    using merge_missing_left [OF that]
    by (simp add: build_sub_callbacks_df_def build_sub_callbacks_df_try_def
        format_subscription_callback_object_def then_do_def try_except_KeyError_handler)
  show "get_callback_groups_of_node formatted id_to_topic nid = Inr []"
    if "''node_handle'' \<notin> set (df_columns (nodes_df formatted))
        \<and> set [''callback_group_addr'', ''callback_id'', ''node_handle'']
            \<subseteq> set (df_columns (timer_callbacks_df formatted))"
  proof -
    from that obtain cdf where
      "concat_frames [''callback_group_addr'', ''callback_id'', ''node_handle'']
         [timer_callbacks_df formatted, subscription_callbacks_df formatted] = Inr cdf"
      by (auto simp: concat_frames_def Let_def)
    moreover have "merge cdf (nodes_df formatted) ''node_handle'' = Inl KeyError"
      using that by (simp add: merge_missing_right)
    ultimately show ?thesis
      by (simp add: get_callback_groups_of_node_def get_callback_groups_try_def then_do_def
          try_except_KeyError_handler)
  qed
  show "\<exists>t. build_timer_callbacks_df data = Inr t" by (rule timer_total)
  show "\<exists>s. build_sub_callbacks_df data = Inr s" by (rule sub_total)
  show "get_callback_groups_of_node formatted id_to_topic nid \<noteq> Inl KeyError"
    by (simp add: get_callback_groups_of_node_def try_except_not_KeyError)
  show "\<exists>t s. build_timer_callbacks_df data = Inr t
                \<and> build_sub_callbacks_df data = Inr s
                \<and> DataFrameFormatted_init data =
                    Inr (\<lparr>executor_df = e, nodes_df = n, timer_callbacks_df = t,
                          subscription_callbacks_df = s, callback_groups_df = c,
                          publishers_df = p\<rparr>, log)"
    if "build_executor_df data = Inr e \<and> build_nodes_df data = Inr n
        \<and> build_cbg_df data = Inr (c, log) \<and> build_publisher_df data = Inr p"
  proof -
    obtain t where t: "build_timer_callbacks_df data = Inr t" using timer_total by blast
    obtain s where s: "build_sub_callbacks_df data = Inr s" using sub_total by blast
    show ?thesis
      using that t s by (simp add: DataFrameFormatted_init_def then_do_def)
  qed
qed

theorem missing_key_degrades_to_empty_witness:
  "build_timer_callbacks_df sparse_model = Inr (empty_frame timer_callbacks_columns)
   \<and> build_sub_callbacks_df sparse_model = Inr (empty_frame sub_callbacks_columns)
   \<and> get_callback_groups_of_node sparse_formatted [] ''/talker_5'' = Inr []
   \<and> (\<exists>e n c log p.
         DataFrameFormatted_init sparse_model =
           Inr (\<lparr>executor_df = e, nodes_df = n,
                 timer_callbacks_df = empty_frame timer_callbacks_columns,
                 subscription_callbacks_df = empty_frame sub_callbacks_columns,
                 callback_groups_df = c, publishers_df = p\<rparr>, log))"
proof -
  note t = missing_key_degrades_to_empty [of sparse_model sparse_formatted "[]" "''/talker_5''"]
  have a: "build_timer_callbacks_df_try sparse_model = Inl KeyError"
    by (simp add: frame_eval)
  have b: "build_sub_callbacks_df_try sparse_model = Inl KeyError"
    by (simp add: frame_eval)
  have c: "get_callback_groups_try sparse_formatted [] ''/talker_5'' = Inl KeyError"
    by (simp add: frame_eval)
  have d: "''timer_handle'' \<notin> set (df_columns (timers sparse_model))"
    "''subscription'' \<notin> set (df_columns (subscription_objects sparse_model))"
    "''node_handle'' \<notin> set (df_columns (nodes_df sparse_formatted))
        \<and> set [''callback_group_addr'', ''callback_id'', ''node_handle'']
            \<subseteq> set (df_columns (timer_callbacks_df sparse_formatted))"
    by (simp_all add: frame_eval)
  obtain e n c' log p where e: "build_executor_df sparse_model = Inr e"
    "build_nodes_df sparse_model = Inr n" "build_cbg_df sparse_model = Inr (c', log)"
    "build_publisher_df sparse_model = Inr p"
    by (simp add: frame_eval upt_rec)
  from t [of e n c' log p] a b c d e
  have 1: "build_timer_callbacks_df sparse_model = Inr (empty_frame timer_callbacks_columns)"
    and 2: "build_sub_callbacks_df sparse_model = Inr (empty_frame sub_callbacks_columns)"
    and 3: "get_callback_groups_of_node sparse_formatted [] ''/talker_5'' = Inr []"
    and 4: "\<exists>t s. build_timer_callbacks_df sparse_model = Inr t
                \<and> build_sub_callbacks_df sparse_model = Inr s
                \<and> DataFrameFormatted_init sparse_model =
                    Inr (\<lparr>executor_df = e, nodes_df = n, timer_callbacks_df = t,
                          subscription_callbacks_df = s, callback_groups_df = c',
                          publishers_df = p\<rparr>, log)"
    by blast+
  from 4 1 2 have "DataFrameFormatted_init sparse_model =
           Inr (\<lparr>executor_df = e, nodes_df = n,
                 timer_callbacks_df = empty_frame timer_callbacks_columns,
                 subscription_callbacks_df = empty_frame sub_callbacks_columns,
                 callback_groups_df = c', publishers_df = p\<rparr>, log)"
    by auto
  with 1 2 3 show ?thesis by blast
qed

subsection \<open>The record composer\<close>

lemma get_filter: "P k \<Longrightarrow> get (filter (\<lambda>(k', v). P k') r) k = get r k"
  by (induction r) (auto simp: get_def)

lemma get_filter_dropped: "\<not> P k \<Longrightarrow> get (filter (\<lambda>(k', v). P k') r) k = None"
  by (induction r) (auto simp: get_def)

lemma get_drop_columns:
  "k \<notin> set cs \<Longrightarrow> map (\<lambda>r. get r k) (drop_columns xs cs) = map (\<lambda>r. get r k) xs"
  by (simp add: drop_columns_def get_filter)

lemma sorted_compose:
  "sorted (map (\<lambda>r. get r ''callback_end_timestamp'')
     (compose_variable_passing_records write_callback_records read_callback_records))"
proof -
  have "''callback_end_timestamp'' \<notin> set [''read_callback_object'', ''write_callback_object'']"
    by simp
  then show ?thesis
    unfolding compose_variable_passing_records_def Let_def sort_records_def
    by (subst get_drop_columns) simp_all
qed

lemma length_compose:
  "length (compose_variable_passing_records write_callback_records read_callback_records)
     = length write_callback_records"
  by (simp add: compose_variable_passing_records_def Let_def sort_records_def
      drop_columns_def rename_columns_def merge_sequencial_def)

lemma columns_compose:
  "row \<in> set (compose_variable_passing_records write_callback_records read_callback_records)
   \<Longrightarrow> ''read_callback_object'' \<notin> columns row \<and> ''write_callback_object'' \<notin> columns row"
  by (auto simp: compose_variable_passing_records_def Let_def drop_columns_def columns_def)

lemma earliest_None:
  "\<not> list_ex (\<lambda>r. case get r k of Some s \<Rightarrow> t \<le> s | None \<Rightarrow> False) reads
   \<Longrightarrow> earliest_no_earlier k t reads = None"
  by (induction reads) (auto split: option.splits)

lemma get_rename:
  "rename_key rn k = k \<Longrightarrow> (\<And>k'. rename_key rn k' = k \<Longrightarrow> k' = k)
   \<Longrightarrow> get (map (\<lambda>(k', v). (rename_key rn k', v)) r) k = get r k"
  by (induction r) (auto simp: get_def)

lemma rename_key_other:
  "k \<noteq> a \<Longrightarrow> k \<noteq> b \<Longrightarrow> rename_key [(a, b)] k = k"
  "k \<noteq> a \<Longrightarrow> k \<noteq> b \<Longrightarrow> rename_key [(a, b)] k' = k \<Longrightarrow> k' = k"
  by (auto simp: rename_key_def split: if_splits)

lemma get_renamed_filtered:
  assumes "k \<noteq> a" "k \<noteq> b" "P k"
  shows "get (map (\<lambda>(k', v). (rename_key [(a, b)] k', v)) (filter (\<lambda>(k', v). P k') r)) k
         = get r k"
    and "get (filter (\<lambda>(k', v). P k') (map (\<lambda>(k', v). (rename_key [(a, b)] k', v)) r)) k
         = get r k"
proof -
  have 1: "get (map (\<lambda>(k', v). (rename_key [(a, b)] k', v)) r') k = get r' k" for r'
  proof (rule get_rename)
    show "rename_key [(a, b)] k = k"
      using assms(1,2) by (rule rename_key_other(1))
    show "k' = k" if "rename_key [(a, b)] k' = k" for k'
      using assms(1,2) that by (rule rename_key_other(2))
  qed
  show "get (map (\<lambda>(k', v). (rename_key [(a, b)] k', v)) (filter (\<lambda>(k', v). P k') r)) k
         = get r k"
    using assms(3) by (simp add: 1 get_filter)
  show "get (filter (\<lambda>(k', v). P k') (map (\<lambda>(k', v). (rename_key [(a, b)] k', v)) r)) k
         = get r k"
    using assms(3) by (simp add: 1 get_filter)
qed

lemma has_later_read_renamed:
  "list_ex (\<lambda>r. case get r ''callback_start_timestamp'' of Some s \<Rightarrow> t \<le> s | None \<Rightarrow> False)
     (rename_columns (drop_columns reads [''callback_end_timestamp''])
        [(''callback_object'', ''read_callback_object'')])
   = has_later_read t reads"
  by (simp add: has_later_read_def rename_columns_def drop_columns_def list_ex_iff
      get_renamed_filtered)

lemma unmatched_write:
  assumes "w \<in> set write_callback_records"
    and "get w ''callback_end_timestamp'' = Some t"
    and "\<not> has_later_read t read_callback_records"
  shows "write_side w \<in> set (compose_variable_passing_records write_callback_records
                               read_callback_records)"
proof -
  let ?w' = "filter (\<lambda>(k, v). k \<notin> set [''callback_start_timestamp''])
       (map (\<lambda>(k, v). (rename_key [(''callback_object'', ''write_callback_object'')] k, v)) w)"
  let ?reads = "rename_columns (drop_columns read_callback_records [''callback_end_timestamp''])
        [(''callback_object'', ''read_callback_object'')]"
  let ?writes = "drop_columns (rename_columns write_callback_records
                            [(''callback_object'', ''write_callback_object'')])
                   [''callback_start_timestamp'']"
  have w': "?w' \<in> set ?writes"
    using assms(1) by (auto simp: drop_columns_def rename_columns_def)
  have e: "get ?w' ''callback_end_timestamp'' = Some t"
    using assms(2) by (simp add: get_renamed_filtered)
  have n: "earliest_no_earlier ''callback_start_timestamp'' t ?reads = None"
    using assms(3) has_later_read_renamed [of t read_callback_records]
    by (intro earliest_None) simp
  let ?step = "\<lambda>l. case get l ''callback_end_timestamp'' of
                None \<Rightarrow> l
              | Some t \<Rightarrow>
                  (case earliest_no_earlier ''callback_start_timestamp'' t ?reads of
                     None \<Rightarrow> l
                   | Some r \<Rightarrow> l @ r)"
  have "?step ?w' = ?w'"
    by (simp only: e n option.case)
  then have "?w' \<in> ?step ` set ?writes"
    using w' by (intro image_eqI [where x = "?w'"]) simp_all
  then have m: "?w' \<in> set (merge_sequencial ?writes ?reads ''callback_end_timestamp''
      ''callback_start_timestamp'')"
    by (simp only: merge_sequencial_def set_map)
  let ?sorted = "sort_records (merge_sequencial ?writes ?reads ''callback_end_timestamp''
      ''callback_start_timestamp'') ''callback_end_timestamp''"
  have "?w' \<in> set ?sorted"
    using m by (simp add: sort_records_def)
  then have "write_side w \<in> set (drop_columns ?sorted
      [''read_callback_object'', ''write_callback_object''])"
    unfolding write_side_def drop_columns_def set_map by (rule imageI)
  then show ?thesis
    by (simp only: compose_variable_passing_records_def Let_def)
qed

lemma write_side_no_read: "get (write_side w) ''callback_start_timestamp'' = None"
proof -
  have "get (write_side w) ''callback_start_timestamp''
      = get (filter (\<lambda>(k, v). k \<notin> set [''callback_start_timestamp''])
          (map (\<lambda>(k, v). (rename_key [(''callback_object'', ''write_callback_object'')] k, v))
             w)) ''callback_start_timestamp''"
    unfolding write_side_def by (rule get_filter) simp
  also have "\<dots> = None"
    by (rule get_filter_dropped) simp
  finally show ?thesis .
qed

text \<open>
  C9.  The records returned by \<open>compose_variable_passing_records\<close> are sorted ascending
  by \<open>callback_end_timestamp\<close>; there is one output row per write record, so no write
  record contributes more than one; a write record whose end has no read start at or
  after it yields its own columns alone, with \<open>callback_start_timestamp\<close> absent; and no
  output row has the column \<open>read_callback_object\<close> or \<open>write_callback_object\<close>.
\<close>

theorem variable_passing_records_sequential_join:
  "sorted (map (\<lambda>r. get r ''callback_end_timestamp'')
     (compose_variable_passing_records write_callback_records read_callback_records))
   \<and> length (compose_variable_passing_records write_callback_records read_callback_records)
       = length write_callback_records
   \<and> (\<forall>w \<in> set write_callback_records. \<forall>t.
         get w ''callback_end_timestamp'' = Some t \<and> \<not> has_later_read t read_callback_records
         \<longrightarrow> write_side w \<in> set (compose_variable_passing_records write_callback_records
                                   read_callback_records)
             \<and> get (write_side w) ''callback_start_timestamp'' = None)
   \<and> (\<forall>row \<in> set (compose_variable_passing_records write_callback_records
                      read_callback_records).
         ''read_callback_object'' \<notin> columns row \<and> ''write_callback_object'' \<notin> columns row)"
  using sorted_compose length_compose unmatched_write write_side_no_read columns_compose
  by blast

theorem variable_passing_records_sequential_join_witness:
  "compose_variable_passing_records example_write_records example_read_records
     = [[(''callback_end_timestamp'', 10), (''callback_start_timestamp'', 12)],
        [(''callback_end_timestamp'', 30)]]
   \<and> sorted (map (\<lambda>r. get r ''callback_end_timestamp'')
        (compose_variable_passing_records example_write_records example_read_records))
   \<and> length (compose_variable_passing_records example_write_records example_read_records) = 2
   \<and> write_side (example_write_records ! 0)
       \<in> set (compose_variable_passing_records example_write_records example_read_records)
   \<and> get (write_side (example_write_records ! 0)) ''callback_start_timestamp'' = None
   \<and> ''read_callback_object''
       \<notin> columns (compose_variable_passing_records example_write_records
                     example_read_records ! 0)"
proof -
  note t = variable_passing_records_sequential_join
    [of example_write_records example_read_records]
  have v: "compose_variable_passing_records example_write_records example_read_records
     = [[(''callback_end_timestamp'', 10), (''callback_start_timestamp'', 12)],
        [(''callback_end_timestamp'', 30)]]"
    by (simp add: compose_variable_passing_records_def example_write_records_def
        example_read_records_def drop_columns_def rename_columns_def rename_key_def
        merge_sequencial_def sort_records_def get_def)
  have w: "example_write_records ! 0 \<in> set example_write_records"
    "get (example_write_records ! 0) ''callback_end_timestamp'' = Some 30"
    "\<not> has_later_read 30 example_read_records"
    by (simp_all add: example_write_records_def example_read_records_def get_def
        has_later_read_def)
  have r: "compose_variable_passing_records example_write_records example_read_records ! 0
       \<in> set (compose_variable_passing_records example_write_records example_read_records)"
    by (simp add: v)
  have l: "length example_write_records = 2"
    by (simp add: example_write_records_def)
  from t w r l v show ?thesis by metis
qed

subsection \<open>The graph search\<close>

lemma position_less: "x \<in> set xs \<Longrightarrow> position xs x < length xs"
  by (induction xs) auto

lemma nth_position: "x \<in> set xs \<Longrightarrow> xs ! position xs x = x"
  by (induction xs) auto

lemma position_inj: "x \<in> set xs \<Longrightarrow> y \<in> set xs \<Longrightarrow> position xs x = position xs y \<Longrightarrow> x = y"
  by (metis nth_position)

lemma position_map_inj:
  "inj_on g (set xs \<union> {x}) \<Longrightarrow> position (map g xs) (g x) = position xs x"
  by (induction xs) (auto simp: inj_on_def)

lemma alias_classes_map:
  assumes "inj_on g (set rs)"
  shows "alias_classes (map g rs) = alias_classes rs"
proof -
  have "position (map g rs) (g r) = position rs r" if "r \<in> set rs" for r
    using that assms by (intro position_map_inj) (simp add: insert_absorb)
  then show ?thesis by (simp add: alias_classes_def)
qed

lemma alias_classes_eq:
  assumes "k < length rs" "j < length rs"
  shows "(alias_classes rs ! k = alias_classes rs ! j) = (rs ! k = rs ! j)"
proof -
  have "rs ! k \<in> set rs" "rs ! j \<in> set rs" using assms by simp_all
  then show ?thesis
    using assms position_inj [of "rs ! k" rs "rs ! j"] by (auto simp: alias_classes_def)
qed

lemma length_alias_classes [simp]: "length (alias_classes rs) = length rs"
  by (simp add: alias_classes_def)

lemma find_map: "find P (map g xs) = map_option g (find (P \<circ> g) xs)"
  by (induction xs) auto

lemma find_positions:
  "find P xs = map_option ((!) xs) (find (\<lambda>i. P (xs ! i)) [0..<length xs])"
proof -
  have "find P (map ((!) xs) [0..<length xs])
      = map_option ((!) xs) (find (P \<circ> (!) xs) [0..<length xs])"
    by (rule find_map)
  then show ?thesis by (simp add: map_nth comp_def)
qed

lemma deepcopy_memo_spec:
  assumes "\<forall>r\<in>set rs. r < n" and "n \<le> length h"
    and "\<forall>r r'. map_of memo r = Some r' \<longrightarrow> r < n \<and> n \<le> r' \<and> r' < length h \<and> h ! r' = h ! r"
    and "inj_on (map_of memo) (dom (map_of memo))"
  shows "\<exists>g ext. deepcopy_memo memo h rs = (h @ ext, map g rs)
           \<and> (\<forall>r r'. map_of memo r = Some r' \<longrightarrow> g r = r')
           \<and> inj_on g (set rs \<union> dom (map_of memo))
           \<and> (\<forall>r \<in> set rs \<union> dom (map_of memo).
                 n \<le> g r \<and> g r < length (h @ ext) \<and> (h @ ext) ! g r = h ! r)"
  using assms
proof (induction rs arbitrary: memo h)
  case Nil
  let ?g = "\<lambda>r. the (map_of memo r)"
  have "inj_on ?g (dom (map_of memo))"
    using Nil.prems(4) by (auto simp: inj_on_def dom_def)
  then show ?case
    using Nil.prems(3) by (intro exI [of _ ?g] exI [of _ "[]"]) (auto simp: dom_def)
next
  case (Cons r rs)
  show ?case
  proof (cases "map_of memo r")
    case (Some r')
    have q1: "\<forall>r\<in>set rs. r < n" using Cons.prems(1) by simp
    from Cons.IH [OF q1 Cons.prems(2) Cons.prems(3) Cons.prems(4)] obtain g ext where
      g: "deepcopy_memo memo h rs = (h @ ext, map g rs)"
        "\<forall>r r'. map_of memo r = Some r' \<longrightarrow> g r = r'"
        "inj_on g (set rs \<union> dom (map_of memo))"
        "\<forall>r \<in> set rs \<union> dom (map_of memo).
            n \<le> g r \<and> g r < length (h @ ext) \<and> (h @ ext) ! g r = h ! r"
      by blast
    have rd: "r \<in> dom (map_of memo)" using Some by auto
    then have eq: "set (r # rs) \<union> dom (map_of memo) = set rs \<union> dom (map_of memo)" by auto
    have "deepcopy_memo memo h (r # rs) = (h @ ext, map g (r # rs))"
      using Some g(1,2) by simp
    then show ?thesis
      using g(2,3,4) unfolding eq by blast
  next
    case None
    let ?memo = "(r, length h) # memo"
    let ?h = "h @ [h ! r]"
    have rn: "r < n" using Cons.prems(1) by simp
    have p3: "\<forall>x x'. map_of ?memo x = Some x'
        \<longrightarrow> x < n \<and> n \<le> x' \<and> x' < length ?h \<and> ?h ! x' = ?h ! x"
    proof (intro allI impI)
      fix x x' assume m: "map_of ?memo x = Some x'"
      show "x < n \<and> n \<le> x' \<and> x' < length ?h \<and> ?h ! x' = ?h ! x"
      proof (cases "x = r")
        case True
        then show ?thesis using m rn Cons.prems(2) by (auto simp: nth_append)
      next
        case False
        then have "map_of memo x = Some x'" using m by simp
        then have "x < n \<and> n \<le> x' \<and> x' < length h \<and> h ! x' = h ! x"
          using Cons.prems(3) by blast
        then show ?thesis using Cons.prems(2) by (auto simp: nth_append)
      qed
    qed
    have p4: "inj_on (map_of ?memo) (dom (map_of ?memo))"
    proof (rule inj_onI)
      fix x y
      assume x: "x \<in> dom (map_of ?memo)" and y: "y \<in> dom (map_of ?memo)"
        and e: "map_of ?memo x = map_of ?memo y"
      have fresh: "map_of memo z \<noteq> Some (length h)" for z
        using Cons.prems(3) by (metis less_irrefl)
      show "x = y"
      proof (cases "x = r")
        case xr: True
        show ?thesis
        proof (cases "y = r")
          case True
          with xr show ?thesis by simp
        next
          case False
          then show ?thesis using e xr fresh [of y] by simp
        qed
      next
        case xr: False
        show ?thesis
        proof (cases "y = r")
          case True
          then show ?thesis using e xr fresh [of x] by simp
        next
          case False
          then have "map_of memo x = map_of memo y" "x \<in> dom (map_of memo)"
            "y \<in> dom (map_of memo)"
            using e x y xr by (auto simp: dom_def)
          then show ?thesis using Cons.prems(4) by (auto simp: inj_on_def)
        qed
      qed
    qed
    have q1: "\<forall>r\<in>set rs. r < n" using Cons.prems(1) by simp
    have q2: "n \<le> length ?h" using Cons.prems(2) by simp
    from Cons.IH [OF q1 q2 p3 p4] obtain g ext where
      g: "deepcopy_memo ?memo ?h rs = (?h @ ext, map g rs)"
        "\<forall>x x'. map_of ?memo x = Some x' \<longrightarrow> g x = x'"
        "inj_on g (set rs \<union> dom (map_of ?memo))"
        "\<forall>x \<in> set rs \<union> dom (map_of ?memo).
            n \<le> g x \<and> g x < length (?h @ ext) \<and> (?h @ ext) ! g x = ?h ! x"
      by blast
    have gr: "g r = length h" using g(2) by simp
    have eq: "set (r # rs) \<union> dom (map_of memo) = set rs \<union> dom (map_of ?memo)" by auto
    have 1: "deepcopy_memo memo h (r # rs) = (h @ ([h ! r] @ ext), map g (r # rs))"
      using None g(1) gr by simp
    have 2: "\<forall>x x'. map_of memo x = Some x' \<longrightarrow> g x = x'"
    proof (intro allI impI)
      fix x x' assume m: "map_of memo x = Some x'"
      then have "x \<noteq> r" using None by auto
      then have "map_of ?memo x = Some x'" using m by simp
      then show "g x = x'" using g(2) by blast
    qed
    have 3: "\<forall>x \<in> set (r # rs) \<union> dom (map_of memo).
            n \<le> g x \<and> g x < length (h @ ([h ! r] @ ext)) \<and> (h @ ([h ! r] @ ext)) ! g x = h ! x"
    proof
      fix x assume x: "x \<in> set (r # rs) \<union> dom (map_of memo)"
      then have x': "x \<in> set rs \<union> dom (map_of ?memo)" unfolding eq .
      have "x < n" using x Cons.prems(1,3) by (auto simp: dom_def)
      then have "?h ! x = h ! x" using Cons.prems(2) by (simp add: nth_append)
      then show "n \<le> g x \<and> g x < length (h @ ([h ! r] @ ext))
          \<and> (h @ ([h ! r] @ ext)) ! g x = h ! x"
        using g(4) x' by (metis append_assoc)
    qed
    show ?thesis
      using 1 2 3 g(3) unfolding eq [symmetric] by blast
  qed
qed

lemma deepcopy_spec:
  assumes "valid_refs h rs"
  shows "\<exists>g ext. deepcopy h rs = (h @ ext, map g rs) \<and> inj_on g (set rs)
           \<and> (\<forall>r \<in> set rs. length h \<le> g r \<and> g r < length (h @ ext)
                 \<and> (h @ ext) ! g r = h ! r)"
  using deepcopy_memo_spec [of rs "length h" h "[]"] assms
  by (simp add: deepcopy_def valid_refs_def list_all_iff)

lemma valid_refs_append: "valid_refs h rs \<Longrightarrow> valid_refs (h @ ext) rs"
  by (auto simp: valid_refs_def list_all_iff)

lemma valid_nth_append: "valid_refs h rs \<Longrightarrow> map ((!) (h @ ext)) rs = map ((!) h) rs"
  by (auto simp: valid_refs_def list_all_iff nth_append)

lemma valid_edge_append:
  "valid_refs h rs \<Longrightarrow> map (edge_of (h @ ext)) rs = map (edge_of h) rs"
  by (auto simp: valid_refs_def list_all_iff nth_append edge_of_def)

lemma valid_paths_append:
  "list_all (valid_refs h) ps \<Longrightarrow> list_all (valid_refs (h @ ext)) ps"
  by (auto simp: list_all_iff valid_refs_append)

lemma valid_paths_edge_append:
  "list_all (valid_refs h) ps
   \<Longrightarrow> map (map (edge_of (h @ ext))) ps = map (map (edge_of h)) ps"
  by (auto simp: list_all_iff valid_edge_append)

lemma abstracts_trans:
  assumes "abstracts (h @ ext) (paths @ new) c a"
  shows "abstracts h paths c a"
  using assms by (auto simp: abstracts_def split: sum.splits)

lemma abstracts_Inl: "abstracts h paths (Inl e) (Inl e)"
  by (simp add: abstracts_def)

lemma abstracts_Inr:
  "list_all (valid_refs h) paths
   \<Longrightarrow> abstracts h paths (Inr (h, paths)) (Inr (map (map (edge_of h)) paths))"
  by (simp add: abstracts_def)

lemma mark_copy:
  assumes inj: "inj_on g (set bs)"
    and g: "\<forall>r \<in> set bs. length h \<le> g r \<and> g r < length h1 \<and> h1 ! g r = h ! r"
    and j: "j < length bs"
  shows "map ((!) (h1[g (bs ! j) := (h1 ! g (bs ! j))\<lparr>arrived := True\<rparr>])) (map g bs)
         = mark (alias_classes bs) j (map ((!) h) bs)"
proof (rule nth_equalityI)
  show "length (map ((!) (h1[g (bs ! j) := (h1 ! g (bs ! j))\<lparr>arrived := True\<rparr>])) (map g bs))
      = length (mark (alias_classes bs) j (map ((!) h) bs))"
    by (simp add: mark_def)
next
  fix k assume "k < length (map ((!) (h1[g (bs ! j) := (h1 ! g (bs ! j))\<lparr>arrived := True\<rparr>]))
      (map g bs))"
  then have k: "k < length bs" by simp
  have mk: "bs ! k \<in> set bs" and mj: "bs ! j \<in> set bs" using k j by simp_all
  have e: "(g (bs ! k) = g (bs ! j)) = (bs ! k = bs ! j)"
    using inj mk mj by (auto simp: inj_on_def)
  have c: "(alias_classes bs ! k = alias_classes bs ! j) = (bs ! k = bs ! j)"
    using k j by (rule alias_classes_eq)
  show "map ((!) (h1[g (bs ! j) := (h1 ! g (bs ! j))\<lparr>arrived := True\<rparr>])) (map g bs) ! k
      = mark (alias_classes bs) j (map ((!) h) bs) ! k"
  proof (cases "bs ! k = bs ! j")
    case True
    then show ?thesis
      using k j g mj by (simp add: mark_def c)
  next
    case False
    then have "g (bs ! k) \<noteq> g (bs ! j)" using e by simp
    then show ?thesis
      using k j g mk False by (simp add: mark_def c)
  qed
qed


lemma search_loop_refines:
  assumes recurse: "\<And>node path bs h paths.
      valid_refs h bs \<Longrightarrow> valid_refs h path \<Longrightarrow> list_all (valid_refs h) paths
      \<Longrightarrow> alias_classes bs = cls
      \<Longrightarrow> abstracts h paths (recurse node path bs (h, paths))
            (arecurse node (map (edge_of h) path) (map ((!) h) bs)
               (map (map (edge_of h)) paths))"
    and "valid_refs h bs" and "valid_refs h path" and "list_all (valid_refs h) paths"
    and "alias_classes bs = cls" and "\<forall>i \<in> set js. i < length bs"
  shows "abstracts h paths
           (search_loop recurse path bs (map ((!) bs) js) (h, paths))
           (walk_loop arecurse cls (map (edge_of h) path) (map ((!) h) bs) js
              (map (map (edge_of h)) paths))"
  using assms(2-)
proof (induction js arbitrary: h paths)
  case Nil
  then show ?case by (simp add: abstracts_Inr)
next
  case (Cons i js)
  let ?vals = "map ((!) h) bs"
  let ?b = "bs ! i"
  have i: "i < length bs" and js: "\<forall>i \<in> set js. i < length bs"
    using Cons.prems(5) by simp_all
  have vb: "bs ! k < length h" if "k < length bs" for k
    using Cons.prems(1) that by (simp add: valid_refs_def list_all_length)
  have vi: "?vals ! i = h ! ?b" using i by simp
  note IH = Cons.IH [OF _ _ _ Cons.prems(4) js]
  show ?case
  proof (cases "arrived (h ! ?b)")
    case True
    then show ?thesis
      using IH [OF Cons.prems(1,2,3)] i by simp
  next
    case False
    from deepcopy_spec [OF Cons.prems(1)] obtain g ext1 where
      dc: "deepcopy h bs = (h @ ext1, map g bs)" and inj: "inj_on g (set bs)"
      and g: "\<forall>r \<in> set bs. length h \<le> g r \<and> g r < length (h @ ext1)
                 \<and> (h @ ext1) ! g r = h ! r"
      by blast
    let ?h1 = "h @ ext1"
    let ?bs' = "map g bs"
    have gk: "?h1 ! g (bs ! k) = ?vals ! k" if "k < length bs" for k
      using g that by simp
    have h1b: "?h1 ! ?b = ?vals ! i"
      using vb [OF i] i by (simp add: nth_append)
    have "find (\<lambda>b. branch_eq (?h1 ! b) (?h1 ! ?b)) ?bs'
        = map_option g (find (\<lambda>r. branch_eq (?h1 ! g r) (?h1 ! ?b)) bs)"
      by (simp add: find_map comp_def)
    also have "find (\<lambda>r. branch_eq (?h1 ! g r) (?h1 ! ?b)) bs
        = map_option ((!) bs)
            (find (\<lambda>k. branch_eq (?h1 ! g (bs ! k)) (?h1 ! ?b)) [0..<length bs])"
      by (rule find_positions)
    also have "find (\<lambda>k. branch_eq (?h1 ! g (bs ! k)) (?h1 ! ?b)) [0..<length bs]
        = find (\<lambda>j. branch_eq (?vals ! j) (?vals ! i)) [0..<length ?vals]"
      by (rule find_cong) (simp_all add: gk h1b del: nth_map)
    finally have fnd: "find (\<lambda>b. branch_eq (?h1 ! b) (?h1 ! ?b)) ?bs'
        = map_option (\<lambda>j. g (bs ! j))
            (find (\<lambda>j. branch_eq (?vals ! j) (?vals ! i)) [0..<length ?vals])"
      by (simp add: option.map_comp comp_def)
    show ?thesis
    proof (cases "find (\<lambda>j. branch_eq (?vals ! j) (?vals ! i)) [0..<length ?vals]")
      case None
      then show ?thesis
        using False fnd dc i by (simp add: abstracts_Inl)
    next
      case (Some j)
      then have j: "j < length bs"
        by (auto simp: find_Some_iff)
      let ?b' = "g (bs ! j)"
      let ?h2 = "?h1[?b' := (?h1 ! ?b')\<lparr>arrived := True\<rparr>]"
      have b'1: "length h \<le> ?b'" and b'2: "?b' < length ?h1"
        using g j by simp_all
      define ext2 where "ext2 = ext1[?b' - length h := (?h1 ! ?b')\<lparr>arrived := True\<rparr>]"
      have h2: "?h2 = h @ ext2"
        using b'1 by (simp add: ext2_def list_update_append)
      have vp2: "valid_refs ?h2 path"
        unfolding h2 using Cons.prems(2) by (rule valid_refs_append)
      from deepcopy_spec [OF vp2] obtain g' ext3 where
        dc': "deepcopy ?h2 path = (?h2 @ ext3, map g' path)"
        and g': "\<forall>r \<in> set path. length ?h2 \<le> g' r \<and> g' r < length (?h2 @ ext3)
                 \<and> (?h2 @ ext3) ! g' r = ?h2 ! r"
        by blast
      let ?h3 = "?h2 @ ext3"
      let ?path'' = "map g' path @ [?b]"
      have h3: "?h3 = h @ (ext2 @ ext3)"
        by (simp add: h2)
      have a1: "valid_refs ?h3 ?bs'"
        using g by (auto simp: valid_refs_def list_all_iff)
      have a2: "valid_refs ?h3 ?path''"
        using g' vb [OF i] by (auto simp: valid_refs_def list_all_iff)
      have a3: "list_all (valid_refs ?h3) paths"
        unfolding h3 using Cons.prems(3) by (rule valid_paths_append)
      have a4: "alias_classes ?bs' = cls"
        using Cons.prems(4) inj by (simp add: alias_classes_map)
      have e1: "map (edge_of ?h3) ?path''
          = map (edge_of h) path @ [(src_node (?vals ! i), dst_node (?vals ! i))]"
      proof -
        have "edge_of ?h3 (g' r) = edge_of h r" if "r \<in> set path" for r
        proof -
          have "r < length h"
            using Cons.prems(2) that by (simp add: valid_refs_def list_all_iff)
          then have "?h2 ! r = h ! r" unfolding h2 by (simp add: nth_append)
          then show ?thesis using g' that by (simp add: edge_of_def)
        qed
        moreover have "edge_of ?h3 ?b = (src_node (?vals ! i), dst_node (?vals ! i))"
          unfolding h3 using vb [OF i] i by (simp add: edge_of_def nth_append)
        ultimately show ?thesis by simp
      qed
      have e2: "map ((!) ?h3) ?bs' = mark cls j ?vals"
      proof -
        have "map ((!) ?h3) ?bs' = map ((!) ?h2) ?bs'"
          using g by (intro valid_nth_append) (auto simp: valid_refs_def list_all_iff)
        also have "\<dots> = mark (alias_classes bs) j ?vals"
          using inj g j by (rule mark_copy)
        finally show ?thesis using Cons.prems(4) by simp
      qed
      have e3: "map (map (edge_of ?h3)) paths = map (map (edge_of h)) paths"
        unfolding h3 using Cons.prems(3) by (rule valid_paths_edge_append)
      have e4: "dst_node (?h3 ! ?b') = dst_node (?vals ! j)"
      proof -
        have "?h3 ! ?b' = ?h2 ! ?b'" using b'2 by (simp add: nth_append)
        then show ?thesis using b'2 gk [OF j] by simp
      qed
      have r: "abstracts ?h3 paths (recurse (dst_node (?h3 ! ?b')) ?path'' ?bs' (?h3, paths))
          (arecurse (dst_node (?vals ! j))
             (map (edge_of h) path @ [(src_node (?vals ! i), dst_node (?vals ! i))])
             (mark cls j ?vals) (map (map (edge_of h)) paths))"
        using recurse [OF a1 a2 a3 a4, of "dst_node (?h3 ! ?b')"]
        unfolding e1 e2 e3 e4 .
      have cstep: "search_loop recurse path bs (map ((!) bs) (i # js)) (h, paths)
          = (case recurse (dst_node (?h3 ! ?b')) ?path'' ?bs' (?h3, paths) of
               Inl e \<Rightarrow> Inl e
             | Inr state' \<Rightarrow> search_loop recurse path bs (map ((!) bs) js) state')"
        using False fnd Some dc dc' by (simp add: Let_def)
      have astep: "walk_loop arecurse cls (map (edge_of h) path) ?vals (i # js)
            (map (map (edge_of h)) paths)
          = (case arecurse (dst_node (?vals ! j))
                 (map (edge_of h) path @ [(src_node (?vals ! i), dst_node (?vals ! i))])
                 (mark cls j ?vals) (map (map (edge_of h)) paths) of
               Inl e \<Rightarrow> Inl e
             | Inr paths' \<Rightarrow>
                 walk_loop arecurse cls (map (edge_of h) path) ?vals js paths')"
        using False Some i by simp
      show ?thesis
      proof (cases "recurse (dst_node (?h3 ! ?b')) ?path'' ?bs' (?h3, paths)")
        case (Inl e)
        then show ?thesis
          using r unfolding cstep astep by (simp add: abstracts_def)
      next
        case (Inr state')
        obtain h4 paths4 where st: "state' = (h4, paths4)" by (cases state')
        from r Inr st obtain ext4 new where
          h4: "h4 = ?h3 @ ext4" and p4: "paths4 = paths @ new"
          and v4: "list_all (valid_refs h4) paths4"
          and ar: "arecurse (dst_node (?vals ! j))
                 (map (edge_of h) path @ [(src_node (?vals ! i), dst_node (?vals ! i))])
                 (mark cls j ?vals) (map (map (edge_of h)) paths)
              = Inr (map (map (edge_of h4)) paths4)"
          by (auto simp: abstracts_def)
        have h4': "h4 = h @ (ext2 @ ext3 @ ext4)"
          by (simp add: h4 h2)
        have b1: "valid_refs h4 bs"
          unfolding h4' using Cons.prems(1) by (rule valid_refs_append)
        have b2: "valid_refs h4 path"
          unfolding h4' using Cons.prems(2) by (rule valid_refs_append)
        have c1: "map ((!) h4) bs = ?vals"
          unfolding h4' using Cons.prems(1) by (rule valid_nth_append)
        have c2: "map (edge_of h4) path = map (edge_of h) path"
          unfolding h4' using Cons.prems(2) by (rule valid_edge_append)
        have "abstracts h4 paths4
            (search_loop recurse path bs (map ((!) bs) js) (h4, paths4))
            (walk_loop arecurse cls (map (edge_of h) path) ?vals js
               (map (map (edge_of h4)) paths4))"
          using IH [OF b1 b2 v4] unfolding c1 c2 .
        then have "abstracts h paths
            (search_loop recurse path bs (map ((!) bs) js) (h4, paths4))
            (walk_loop arecurse cls (map (edge_of h) path) ?vals js
               (map (map (edge_of h4)) paths4))"
          unfolding h4' p4 by (rule abstracts_trans)
        then show ?thesis
          unfolding cstep astep Inr st ar by simp
      qed
    qed
  qed
qed

lemma filter_positions:
  "filter P xs = map ((!) xs) (filter (\<lambda>i. P (xs ! i)) [0..<length xs])"
proof -
  have "filter P (map ((!) xs) [0..<length xs])
      = map ((!) xs) (filter (P \<circ> (!) xs) [0..<length xs])"
    by (rule filter_map)
  then show ?thesis by (simp add: map_nth comp_def)
qed

lemma search_local_refines:
  assumes "valid_refs h bs" and "valid_refs h path" and "list_all (valid_refs h) paths"
  shows "abstracts h paths (search_local d dst node path bs (h, paths))
           (walk_local d dst (alias_classes bs) node (map (edge_of h) path)
              (map ((!) h) bs) (map (map (edge_of h)) paths))"
  using assms
proof (induction d arbitrary: node path bs h paths)
  case 0
  then show ?case by (simp add: abstracts_Inl)
next
  case (Suc d)
  let ?vals = "map ((!) h) bs"
  let ?js = "filter (\<lambda>i. src_node (?vals ! i) = node) [0..<length ?vals]"
  let ?paths = "if node = dst \<and> length path > 0 then paths @ [path] else paths"
  have t: "filter (\<lambda>x. src_node (h ! x) = node) bs = map ((!) bs) ?js"
  proof -
    have "filter (\<lambda>i. src_node (h ! (bs ! i)) = node) [0..<length bs] = ?js"
      by (rule filter_cong) simp_all
    then show ?thesis
      using filter_positions [of "\<lambda>x. src_node (h ! x) = node" bs] by simp
  qed
  have vp: "list_all (valid_refs h) ?paths"
    using Suc.prems(2,3) by simp
  have js: "\<forall>i \<in> set ?js. i < length bs" by simp
  have "abstracts h ?paths
      (search_loop (search_local d dst) path bs (map ((!) bs) ?js) (h, ?paths))
      (walk_loop (walk_local d dst (alias_classes bs)) (alias_classes bs)
         (map (edge_of h) path) ?vals ?js (map (map (edge_of h)) ?paths))"
  proof (rule search_loop_refines [OF _ Suc.prems(1,2) vp refl js])
    fix node' path' bs' h' paths'
    assume "valid_refs h' bs'" "valid_refs h' path'" "list_all (valid_refs h') paths'"
      "alias_classes bs' = alias_classes bs"
    then show "abstracts h' paths' (search_local d dst node' path' bs' (h', paths'))
        (walk_local d dst (alias_classes bs) node' (map (edge_of h') path')
           (map ((!) h') bs') (map (map (edge_of h')) paths'))"
      using Suc.IH [of h' bs' path' paths' node'] by simp
  qed
  note main = this
  have c: "search_local (Suc d) dst node path bs (h, paths)
      = search_loop (search_local d dst) path bs (map ((!) bs) ?js) (h, ?paths)"
    by (simp add: t Let_def)
  have a: "walk_local (Suc d) dst (alias_classes bs) node (map (edge_of h) path) ?vals
        (map (map (edge_of h)) paths)
      = walk_loop (walk_local d dst (alias_classes bs)) (alias_classes bs)
         (map (edge_of h) path) ?vals ?js (map (map (edge_of h)) ?paths)"
    by simp
  show ?case
    unfolding c a
  proof (cases "node = dst \<and> length path > 0")
    case True
    then have p: "?paths = paths @ [path]" by simp
    from main have "abstracts (h @ []) (paths @ [path])
        (search_loop (search_local d dst) path bs (map ((!) bs) ?js) (h, ?paths))
        (walk_loop (walk_local d dst (alias_classes bs)) (alias_classes bs)
           (map (edge_of h) path) ?vals ?js (map (map (edge_of h)) ?paths))"
      unfolding p by simp
    then show "abstracts h paths
        (search_loop (search_local d dst) path bs (map ((!) bs) ?js) (h, ?paths))
        (walk_loop (walk_local d dst (alias_classes bs)) (alias_classes bs)
           (map (edge_of h) path) ?vals ?js (map (map (edge_of h)) ?paths))"
      by (rule abstracts_trans)
  next
    case False
    then have p: "?paths = paths" by auto
    from main show "abstracts h paths
        (search_loop (search_local d dst) path bs (map ((!) bs) ?js) (h, ?paths))
        (walk_loop (walk_local d dst (alias_classes bs)) (alias_classes bs)
           (map (edge_of h) path) ?vals ?js (map (map (edge_of h)) ?paths))"
      unfolding p .
  qed
qed

lemma returns_visits_append:
  assumes "returns_visits dst n xs" "returns_visits dst n ys"
  shows "returns_visits dst n (xs @ ys)"
  using assms unfolding returns_visits_def by (metis Un_iff set_append)

lemma returns_visits_mono:
  assumes "returns_visits dst n xs" "n \<le> m"
  shows "returns_visits dst m xs"
  using assms unfolding returns_visits_def by (meson le_trans)

lemma walk_loop_new:
  assumes recurse: "\<And>node' path' vals' paths paths'.
      recurse node' path' vals' paths = Inr paths'
      \<Longrightarrow> (path' \<noteq> [] \<longrightarrow> snd (last path') = node')
      \<Longrightarrow> \<exists>new. paths' = paths @ new \<and> (\<forall>p \<in> set new. completes node' dst path' p)
            \<and> returns_visits dst (length path') new"
    and "walk_loop recurse cls path vals js paths = Inr paths'"
    and "\<forall>i \<in> set js. src_node (vals ! i) = node"
  shows "\<exists>new. paths' = paths @ new
           \<and> (\<forall>p \<in> set new. \<exists>e q. p = path @ e # q \<and> fst e = node \<and> snd (last p) = dst)
           \<and> returns_visits dst (Suc (length path)) new"
  using assms(2-)
proof (induction js arbitrary: paths)
  case Nil
  then show ?case by (simp add: returns_visits_def)
next
  case (Cons i js)
  have js: "\<forall>i \<in> set js. src_node (vals ! i) = node" using Cons.prems(2) by simp
  have si: "src_node (vals ! i) = node" using Cons.prems(2) by simp
  show ?case
  proof (cases "arrived (vals ! i)")
    case True
    then show ?thesis using Cons.IH [OF _ js] Cons.prems(1) by simp
  next
    case False
    show ?thesis
    proof (cases "find (\<lambda>j. branch_eq (vals ! j) (vals ! i)) [0..<length vals]")
      case None
      then show ?thesis using Cons.prems(1) False by simp
    next
      case (Some j)
      then have be: "branch_eq (vals ! j) (vals ! i)" by (auto simp: find_Some_iff)
      let ?e = "(src_node (vals ! i), dst_node (vals ! i))"
      let ?r = "recurse (dst_node (vals ! j)) (path @ [?e]) (mark cls j vals) paths"
      show ?thesis
      proof (cases ?r)
        case (Inl e)
        then show ?thesis using Cons.prems(1) False Some by simp
      next
        case (Inr paths1)
        have "path @ [?e] \<noteq> [] \<longrightarrow> snd (last (path @ [?e])) = dst_node (vals ! j)"
          using be by (simp add: branch_eq_def)
        from recurse [OF Inr this] obtain new1 where
          n1: "paths1 = paths @ new1"
          "\<forall>p \<in> set new1. completes (dst_node (vals ! j)) dst (path @ [?e]) p"
          "returns_visits dst (length (path @ [?e])) new1"
          by blast
        have rest: "walk_loop recurse cls path vals js paths1 = Inr paths'"
          using Cons.prems(1) False Some Inr by simp
        from Cons.IH [OF rest js] obtain new2 where
          n2: "paths' = paths1 @ new2"
          "\<forall>p \<in> set new2. \<exists>e q. p = path @ e # q \<and> fst e = node \<and> snd (last p) = dst"
          "returns_visits dst (Suc (length path)) new2"
          by blast
        have a: "\<forall>p \<in> set new1. \<exists>e q. p = path @ e # q \<and> fst e = node \<and> snd (last p) = dst"
        proof
          fix p assume "p \<in> set new1"
          with n1(2) obtain q where "p = (path @ [?e]) @ q" "snd (last p) = dst"
            unfolding completes_def by blast
          then have "p = path @ ?e # q \<and> fst ?e = node \<and> snd (last p) = dst"
            using si by simp
          then show "\<exists>e q. p = path @ e # q \<and> fst e = node \<and> snd (last p) = dst"
            by blast
        qed
        have b: "returns_visits dst (Suc (length path)) (new1 @ new2)"
          using n1(3) n2(3) by (intro returns_visits_append) simp_all
        show ?thesis
          using n1(1) n2(1,2) a b by (intro exI [of _ "new1 @ new2"]) auto
      qed
    qed
  qed
qed

lemma walk_local_new:
  assumes "walk_local d dst cls node path vals paths = Inr paths'"
    and "path \<noteq> [] \<longrightarrow> snd (last path) = node"
  shows "\<exists>new. paths' = paths @ new \<and> (\<forall>p \<in> set new. completes node dst path p)
           \<and> returns_visits dst (length path) new"
  using assms
proof (induction d arbitrary: node path vals paths paths')
  case 0
  then show ?case by simp
next
  case (Suc d)
  let ?js = "filter (\<lambda>i. src_node (vals ! i) = node) [0..<length vals]"
  let ?paths = "if node = dst \<and> length path > 0 then paths @ [path] else paths"
  have run: "walk_loop (walk_local d dst cls) cls path vals ?js ?paths = Inr paths'"
    using Suc.prems(1) by simp
  have js: "\<forall>i \<in> set ?js. src_node (vals ! i) = node" by simp
  from walk_loop_new [of "walk_local d dst cls" dst, OF _ run js] Suc.IH
  obtain new where
    n: "paths' = ?paths @ new"
    "\<forall>p \<in> set new. \<exists>e q. p = path @ e # q \<and> fst e = node \<and> snd (last p) = dst"
    "returns_visits dst (Suc (length path)) new"
    by blast
  have c: "\<forall>p \<in> set new. completes node dst path p"
    using n(2) unfolding completes_def by fastforce
  show ?case
  proof (cases "node = dst \<and> length path > 0")
    case True
    have rec: "completes node dst path path"
      using True Suc.prems(2) by (simp add: completes_def)
    have rv: "returns_visits dst (length path) (path # new)"
      unfolding returns_visits_def
    proof (intro ballI allI impI)
      fix p k
      assume p: "p \<in> set (path # new)"
        and k: "length path \<le> k \<and> 0 < k \<and> k \<le> length p \<and> snd (p ! (k - 1)) = dst"
      show "take k p \<in> set (path # new)"
      proof (cases "k = length path")
        case True
        have "take (length path) p = path"
          using p n(2) by auto
        then show ?thesis using True by simp
      next
        case False
        then have k': "Suc (length path) \<le> k" using k by simp
        then have "p \<noteq> path" using k by auto
        then have "p \<in> set new" using p by simp
        then have "take k p \<in> set new"
          using n(3) k k' unfolding returns_visits_def by blast
        then show ?thesis by simp
      qed
    qed
    show ?thesis
      using True n(1) c rec rv by (intro exI [of _ "path # new"]) simp
  next
    case False
    have rv: "returns_visits dst (length path) new"
      unfolding returns_visits_def
    proof (intro ballI allI impI)
      fix p k
      assume p: "p \<in> set new"
        and k: "length path \<le> k \<and> 0 < k \<and> k \<le> length p \<and> snd (p ! (k - 1)) = dst"
      from n(2) p obtain e q where pq: "p = path @ e # q" by blast
      have "k \<noteq> length path"
      proof
        assume kl: "k = length path"
        then have "path \<noteq> []" using k by auto
        moreover have "p ! (k - 1) = last path"
          using kl k pq \<open>path \<noteq> []\<close> by (simp add: nth_append last_conv_nth)
        ultimately have "node = dst" using Suc.prems(2) k by simp
        then show False using False \<open>path \<noteq> []\<close> by simp
      qed
      then have "Suc (length path) \<le> k" using k by simp
      then show "take k p \<in> set new"
        using n(3) p k unfolding returns_visits_def by blast
    qed
    show ?thesis
      using False n(1) c rv by (intro exI [of _ new]) auto
  qed
qed

lemma search_refines:
  assumes "search depth h branches src dst = Inr (h', paths)" and "valid_refs h branches"
  shows "(\<exists>ext. h' = h @ ext) \<and> list_all (valid_refs h') paths
         \<and> walk_local depth dst (alias_classes branches) src [] (map ((!) h) branches) []
             = Inr (map (map (edge_of h')) paths)"
  using search_local_refines [of h branches "[]" "[]" depth dst src] assms
  by (auto simp: search_def abstracts_def valid_refs_def)

lemma search_refines_error:
  assumes "walk_local depth dst (alias_classes branches) src [] (map ((!) h) branches) []
             = Inl e"
    and "valid_refs h branches"
  shows "search depth h branches src dst = Inl e"
  using search_local_refines [of h branches "[]" "[]" depth dst src] assms
  by (auto simp: search_def abstracts_def valid_refs_def split: sum.splits)

lemma search_paths:
  assumes "search depth h branches src dst = Inr (h', paths)" and "valid_refs h branches"
    and "p \<in> set paths"
  shows "p \<noteq> [] \<and> src_node (h' ! hd p) = src \<and> dst_node (h' ! last p) = dst"
proof -
  from search_refines [OF assms(1,2)] have
    w: "walk_local depth dst (alias_classes branches) src [] (map ((!) h) branches) []
          = Inr (map (map (edge_of h')) paths)"
    by blast
  from walk_local_new [OF w] have "\<forall>q \<in> set (map (map (edge_of h')) paths). completes src dst [] q"
    by auto
  then have "completes src dst [] (map (edge_of h') p)"
    using assms(3) by simp
  then have "p \<noteq> []" "fst (hd (map (edge_of h') p)) = src"
    "snd (last (map (edge_of h') p)) = dst"
    by (auto simp: completes_def)
  then show ?thesis
    by (simp add: hd_map last_map edge_of_def)
qed

lemma to_path_names:
  "to_path callbacks ns = Inr cs \<Longrightarrow> map callback_unique_name cs = map name ns"
proof (induction ns arbitrary: cs)
  case Nil
  then show ?case by simp
next
  case (Cons n ns)
  then show ?case
    by (auto simp: find_Some_iff split: option.splits sum.splits)
qed

lemma to_paths_names:
  "to_paths callbacks nss = Inr pss \<Longrightarrow> p \<in> set pss
   \<Longrightarrow> \<exists>ns \<in> set nss. map callback_unique_name p = map name ns"
proof (induction nss arbitrary: pss)
  case Nil
  then show ?case by simp
next
  case (Cons ns nss)
  then show ?case
    by (auto split: sum.splits dest: to_path_names)
qed

lemma callback_path_search_paths:
  assumes "callback_path_search depth callbacks communications variable_passings s e
             = Inr cb_paths"
    and "p \<in> set cb_paths"
  shows "p \<noteq> [] \<and> callback_unique_name (hd p) = s \<and> callback_unique_name (last p) = e"
proof -
  let ?h = "communication_branches communications
              @ variable_passing_branches variable_passings"
  from assms(1) obtain h' graph_paths where
    s: "search depth ?h [0..<length ?h] (GraphNode s) (GraphNode e) = Inr (h', graph_paths)"
    and t: "to_paths callbacks (map (to_graph_nodes h') graph_paths) = Inr cb_paths"
    by (auto simp: callback_path_search_def Let_def split: sum.splits)
  have v: "valid_refs ?h [0..<length ?h]"
    by (simp add: valid_refs_def list_all_iff)
  from to_paths_names [OF t assms(2)] obtain gp where
    gp: "gp \<in> set graph_paths"
    and n: "map callback_unique_name p = map name (to_graph_nodes h' gp)"
    by auto
  from search_paths [OF s v gp] have
    g: "gp \<noteq> []" "src_node (h' ! hd gp) = GraphNode s" "dst_node (h' ! last gp) = GraphNode e"
    by simp_all
  have ns: "to_graph_nodes h' gp
      = src_node (h' ! hd gp) # map (\<lambda>branch. dst_node (h' ! branch)) gp"
    using g(1) by (simp add: to_graph_nodes_def hd_conv_nth)
  have "p \<noteq> []" using n ns by auto
  moreover have "callback_unique_name (hd p) = hd (map callback_unique_name p)"
    using \<open>p \<noteq> []\<close> by (simp add: hd_map)
  moreover have "callback_unique_name (last p) = last (map callback_unique_name p)"
    using \<open>p \<noteq> []\<close> by (simp add: last_map)
  ultimately show ?thesis
    using n ns g by (simp add: last_map)
qed

lemmas graph_examples =
  node_A_def node_B_def node_C_def cycle_store_def doubled_store_def two_cycles_store_def
  figure_eight_store_def GraphBranch_init_def

text \<open>
  C1.  Every path that \<open>GraphSearcher.search\<close> returns is non-empty, its first branch
  starts at the source node and its last branch ends at the destination node; and every
  path of callbacks that \<open>CallbackPathSercher.search\<close> returns is non-empty, its first
  callback has the start name and its last callback the end name.
\<close>

theorem search_endpoints:
  "(search depth h branches src dst = Inr (h', paths) \<and> valid_refs h branches
      \<longrightarrow> (\<forall>p \<in> set paths.
             p \<noteq> [] \<and> src_node (h' ! hd p) = src \<and> dst_node (h' ! last p) = dst))
   \<and> (callback_path_search depth callbacks communications variable_passings s e
         = Inr cb_paths
      \<longrightarrow> (\<forall>p \<in> set cb_paths.
             p \<noteq> [] \<and> callback_unique_name (hd p) = s \<and> callback_unique_name (last p) = e))"
  using search_paths callback_path_search_paths by blast

theorem search_endpoints_witness:
  "callback_path_search 10 [talker_timer, listener_subscription] [talker_to_listener] []
       ''/talker/timer_callback_0'' ''/listener/subscription_callback_0''
     = Inr [[talker_timer, listener_subscription]]
   \<and> callback_unique_name (hd [talker_timer, listener_subscription])
       = ''/talker/timer_callback_0''
   \<and> callback_unique_name (last [talker_timer, listener_subscription])
       = ''/listener/subscription_callback_0''
   \<and> (\<exists>h' p. search 10 cycle_store [0, 1] node_A node_A = Inr (h', [p])
         \<and> p \<noteq> [] \<and> src_node (h' ! hd p) = node_A \<and> dst_node (h' ! last p) = node_A)"
proof -
  have c: "callback_path_search 10 [talker_timer, listener_subscription]
       [talker_to_listener] []
       ''/talker/timer_callback_0'' ''/listener/subscription_callback_0''
     = Inr [[talker_timer, listener_subscription]]"
    by code_simp
  have "\<not> isl (search 10 cycle_store [0, 1] node_A node_A)"
    "length (snd (projr (search 10 cycle_store [0, 1] node_A node_A))) = 1"
    by code_simp+
  then obtain h' p where g: "search 10 cycle_store [0, 1] node_A node_A = Inr (h', [p])"
    by (cases "search 10 cycle_store [0, 1] node_A node_A")
       (auto simp: length_Suc_conv)
  have v: "valid_refs cycle_store [0, 1]"
    by (simp add: valid_refs_def cycle_store_def)
  note t = search_endpoints [of 10 cycle_store "[0, 1]" node_A node_A h' "[p]"
      "[talker_timer, listener_subscription]" "[talker_to_listener]" "[]"
      "''/talker/timer_callback_0''" "''/listener/subscription_callback_0''"
      "[[talker_timer, listener_subscription]]"]
  from t c g v show ?thesis by auto
qed

lemma two_cycles_loop:
  assumes "distinct cls" "length cls = 4"
  shows "walk_local d dst cls node_A path
     [\<lparr>arrived = True, src_node = node_A, dst_node = node_B\<rparr>,
      \<lparr>arrived = False, src_node = node_A, dst_node = node_B\<rparr>,
      \<lparr>arrived = True, src_node = node_B, dst_node = node_A\<rparr>,
      \<lparr>arrived = False, src_node = node_B, dst_node = node_A\<rparr>] paths = Inl RecursionError
   \<and> walk_local d dst cls node_B path
     [\<lparr>arrived = True, src_node = node_A, dst_node = node_B\<rparr>,
      \<lparr>arrived = False, src_node = node_A, dst_node = node_B\<rparr>,
      \<lparr>arrived = True, src_node = node_B, dst_node = node_A\<rparr>,
      \<lparr>arrived = False, src_node = node_B, dst_node = node_A\<rparr>] paths = Inl RecursionError"
proof (induction d arbitrary: path paths dst)
  case 0
  then show ?case by simp
next
  case (Suc d)
  have ne: "node_A \<noteq> node_B" by (simp add: node_A_def node_B_def)
  show ?case
    using ne ne [symmetric] assms
    by (simp add: upt_rec [of 0] upt_rec [of 1] upt_rec [of 2] upt_rec [of 3]
        branch_eq_def mark_def Suc nth_eq_iff_index_eq)
qed

lemma two_cycles_never_returns:
  "search depth two_cycles_store [0, 1, 2, 3] node_A node_B = Inl RecursionError"
proof (rule search_refines_error)
  show "valid_refs two_cycles_store [0, 1, 2, 3]"
    by (simp add: valid_refs_def two_cycles_store_def)
  have ne: "node_A \<noteq> node_B" by (simp add: node_A_def node_B_def)
  define cls where "cls = alias_classes [0, 1, 2, 3]"
  have cls: "distinct cls" "length cls = 4"
    by (simp_all add: cls_def alias_classes_def)
  have vals: "map ((!) two_cycles_store) [0, 1, 2, 3]
      = [\<lparr>arrived = False, src_node = node_A, dst_node = node_B\<rparr>,
         \<lparr>arrived = False, src_node = node_A, dst_node = node_B\<rparr>,
         \<lparr>arrived = False, src_node = node_B, dst_node = node_A\<rparr>,
         \<lparr>arrived = False, src_node = node_B, dst_node = node_A\<rparr>]"
    by (simp add: two_cycles_store_def GraphBranch_init_def)
  note loop = two_cycles_loop [OF cls]
  have "walk_local depth node_B cls node_A []
      [\<lparr>arrived = False, src_node = node_A, dst_node = node_B\<rparr>,
       \<lparr>arrived = False, src_node = node_A, dst_node = node_B\<rparr>,
       \<lparr>arrived = False, src_node = node_B, dst_node = node_A\<rparr>,
       \<lparr>arrived = False, src_node = node_B, dst_node = node_A\<rparr>] [] = Inl RecursionError"
  proof (cases depth)
    case 0
    then show ?thesis by simp
  next
    case d1: (Suc d1)
    show ?thesis
    proof (cases d1)
      case 0
      then show ?thesis
        using ne ne [symmetric] cls
        by (simp add: d1 upt_rec [of 0] upt_rec [of 1] upt_rec [of 2] upt_rec [of 3]
            branch_eq_def mark_def nth_eq_iff_index_eq)
    next
      case (Suc d2)
      then show ?thesis
        using ne ne [symmetric] cls
        by (simp add: d1 upt_rec [of 0] upt_rec [of 1] upt_rec [of 2] upt_rec [of 3]
            branch_eq_def mark_def nth_eq_iff_index_eq loop)
    qed
  qed
  then show "walk_local depth node_B (alias_classes [0, 1, 2, 3]) node_A []
      (map ((!) two_cycles_store) [0, 1, 2, 3]) [] = Inl RecursionError"
    by (simp only: cls_def vals)
qed

text \<open>
  C2 at a failing input.  With two branches A -> B (two objects with equal ends) and one
  branch B -> A, the search from A to B returns the path A -> B, B -> A, A -> B, in which
  two branches have the same source and destination: the branch it marks in the copy is
  the first one equal to the branch taken, so the second A -> B is never marked.  With
  B -> A doubled as well the search never returns: at every recursion limit it raises
  RecursionError.
\<close>

theorem search_reuses_equal_branch:
  "path_edges (search 10 doubled_store [0, 1, 2] node_A node_B)
     = Inr [[(node_A, node_B)],
            [(node_A, node_B), (node_B, node_A), (node_A, node_B)],
            [(node_A, node_B)],
            [(node_A, node_B), (node_B, node_A), (node_A, node_B)]]
   \<and> (\<forall>depth. search depth two_cycles_store [0, 1, 2, 3] node_A node_B
         = Inl RecursionError)"
proof -
  have "path_edges (search 10 doubled_store [0, 1, 2] node_A node_B)
     = Inr [[(node_A, node_B)],
            [(node_A, node_B), (node_B, node_A), (node_A, node_B)],
            [(node_A, node_B)],
            [(node_A, node_B), (node_B, node_A), (node_A, node_B)]]"
    by code_simp
  then show ?thesis using two_cycles_never_returns by blast
qed

lemma search_visits:
  assumes "search depth h branches src dst = Inr (h', paths)" and "valid_refs h branches"
    and "p \<in> set paths" and "0 < k" and "k < length p"
    and "dst_node (h' ! (p ! (k - 1))) = dst"
  shows "\<exists>p' \<in> set paths. map (edge_of h') p' = take k (map (edge_of h') p)"
proof -
  from search_refines [OF assms(1,2)] have
    w: "walk_local depth dst (alias_classes branches) src [] (map ((!) h) branches) []
          = Inr (map (map (edge_of h')) paths)"
    by blast
  from walk_local_new [OF w] have rv: "returns_visits dst 0 (map (map (edge_of h')) paths)"
    by auto
  have "map (edge_of h') p \<in> set (map (map (edge_of h')) paths)"
    using assms(3) by simp
  moreover have "snd (map (edge_of h') p ! (k - 1)) = dst"
    using assms(4,5,6) by (simp add: edge_of_def)
  ultimately have "take k (map (edge_of h') p) \<in> set (map (map (edge_of h')) paths)"
    using rv assms(4,5) unfolding returns_visits_def by (metis le0 length_map less_imp_le)
  then show ?thesis by auto
qed

lemma search_again:
  assumes "search depth h branches src dst = Inr (h', paths)" and "valid_refs h branches"
  shows "\<exists>h'' paths'. search depth h' branches src dst = Inr (h'', paths')
           \<and> map (map (edge_of h'')) paths' = map (map (edge_of h')) paths"
proof -
  from search_refines [OF assms] obtain ext where
    ext: "h' = h @ ext"
    and w: "walk_local depth dst (alias_classes branches) src [] (map ((!) h) branches) []
          = Inr (map (map (edge_of h')) paths)"
    by blast
  have v': "valid_refs h' branches"
    unfolding ext using assms(2) by (rule valid_refs_append)
  have same: "map ((!) h') branches = map ((!) h) branches"
    unfolding ext using assms(2) by (rule valid_nth_append)
  show ?thesis
  proof (cases "search depth h' branches src dst")
    case (Inl e)
    have "abstracts h' [] (search depth h' branches src dst)
        (walk_local depth dst (alias_classes branches) src [] (map ((!) h') branches) [])"
      using search_local_refines [of h' branches "[]" "[]" depth dst src] v'
      by (simp add: search_def valid_refs_def)
    then show ?thesis using Inl w same by (simp add: abstracts_def)
  next
    case (Inr r)
    obtain h'' paths' where r: "r = (h'', paths')" by (cases r)
    from search_refines [OF Inr [unfolded r] v'] have
      "walk_local depth dst (alias_classes branches) src [] (map ((!) h') branches) []
          = Inr (map (map (edge_of h'')) paths')"
      by blast
    then show ?thesis using Inr r w same by simp
  qed
qed

lemma search_frame:
  assumes "search depth h branches src dst = Inr (h', paths)" and "valid_refs h branches"
  shows "take (length h) h' = h" and "b \<in> set branches \<Longrightarrow> h' ! b = h ! b"
proof -
  from search_refines [OF assms] obtain ext where ext: "h' = h @ ext" by blast
  show "take (length h) h' = h" by (simp add: ext)
  show "h' ! b = h ! b" if "b \<in> set branches"
    using that assms(2) by (simp add: ext valid_refs_def list_all_iff nth_append)
qed

text \<open>
  C10.  A search that returns has changed no object of the store it started on: the
  store has only grown, so every branch of the searcher is as it was, with its \<open>arrived\<close>
  flag still False if it was False before.  A second search with the same arguments then
  returns as well, and its paths are equal to those of the first, branch by branch up to
  the equality of branches.
\<close>

theorem search_leaves_branches_unchanged:
  "search depth h branches src dst = Inr (h', paths) \<and> valid_refs h branches
   \<longrightarrow> take (length h) h' = h
       \<and> (\<forall>b \<in> set branches. h' ! b = h ! b)
       \<and> (list_all (\<lambda>b. \<not> arrived (h ! b)) branches
            \<longrightarrow> list_all (\<lambda>b. \<not> arrived (h' ! b)) branches)
       \<and> (\<exists>h'' paths'. search depth h' branches src dst = Inr (h'', paths')
             \<and> map (map (edge_of h'')) paths' = map (map (edge_of h')) paths)"
proof (intro impI conjI ballI)
  assume a: "search depth h branches src dst = Inr (h', paths) \<and> valid_refs h branches"
  then have s: "search depth h branches src dst = Inr (h', paths)"
    and v: "valid_refs h branches"
    by simp_all
  show "take (length h) h' = h" using search_frame(1) [OF s v] .
  show "h' ! b = h ! b" if "b \<in> set branches" for b using search_frame(2) [OF s v that] .
  show "list_all (\<lambda>b. \<not> arrived (h' ! b)) branches"
    if "list_all (\<lambda>b. \<not> arrived (h ! b)) branches"
    using that search_frame(2) [OF s v] by (simp add: list_all_iff)
  show "\<exists>h'' paths'. search depth h' branches src dst = Inr (h'', paths')
             \<and> map (map (edge_of h'')) paths' = map (map (edge_of h')) paths"
    using search_again [OF s v] .
qed

theorem search_leaves_branches_unchanged_witness:
  "take 2 (fst (projr (search 10 cycle_store [0, 1] node_A node_A))) = cycle_store
   \<and> list_all (\<lambda>b. \<not> arrived (fst (projr (search 10 cycle_store [0, 1] node_A node_A)) ! b))
       [0, 1]
   \<and> path_edges (search 10 (fst (projr (search 10 cycle_store [0, 1] node_A node_A)))
                   [0, 1] node_A node_A)
       = path_edges (search 10 cycle_store [0, 1] node_A node_A)"
proof -
  let ?R = "search 10 cycle_store [0, 1] node_A node_A"
  let ?h = "fst (projr ?R)"
  let ?ps = "snd (projr ?R)"
  have "\<not> isl ?R" by code_simp
  then have r: "?R = Inr (?h, ?ps)" by (cases ?R) auto
  have v: "valid_refs cycle_store [0, 1]"
    by (simp add: valid_refs_def cycle_store_def)
  have f: "list_all (\<lambda>b. \<not> arrived (cycle_store ! b)) [0, 1]"
    by (simp add: cycle_store_def GraphBranch_init_def)
  have l: "length cycle_store = 2" by (simp add: cycle_store_def)
  note t = search_leaves_branches_unchanged [of 10 cycle_store "[0, 1]" node_A node_A ?h ?ps]
  from t r v f obtain h'' paths' where
    1: "take (length cycle_store) ?h = cycle_store"
    and 2: "list_all (\<lambda>b. \<not> arrived (?h ! b)) [0, 1]"
    and 3: "search 10 ?h [0, 1] node_A node_A = Inr (h'', paths')"
      "map (map (edge_of h'')) paths' = map (map (edge_of ?h)) ?ps"
    by blast
  have "path_edges (search 10 ?h [0, 1] node_A node_A) = path_edges (Inr (?h, ?ps))"
    using 3 by (simp add: path_edges_def case_prod_beta)
  then have "path_edges (search 10 ?h [0, 1] node_A node_A) = path_edges ?R"
    using r by simp
  then show ?thesis using 1 2 l by simp
qed

subsection \<open>The walks that the search returns\<close>

lemma walk_loop_grows:
  assumes "\<And>node' path' vals' pa r. recurse node' path' vals' pa = Inr r \<Longrightarrow> set pa \<subseteq> set r"
    and "walk_loop recurse cls path vals js paths = Inr ps"
  shows "set paths \<subseteq> set ps"
  using assms(2)
proof (induction js arbitrary: paths)
  case Nil
  then show ?case by simp
next
  case (Cons i js)
  show ?case
  proof (cases "arrived (vals ! i)")
    case True
    then show ?thesis using Cons by simp
  next
    case False
    from Cons.prems False obtain j r where
      r: "recurse (dst_node (vals ! j))
            (path @ [(src_node (vals ! i), dst_node (vals ! i))]) (mark cls j vals) paths = Inr r"
      and l: "walk_loop recurse cls path vals js r = Inr ps"
      by (auto split: option.splits sum.splits)
    from assms(1) [OF r] Cons.IH [OF l] show ?thesis by blast
  qed
qed

lemma walk_local_grows:
  "walk_local d dst cls node path vals paths = Inr ps
   \<Longrightarrow> set paths \<subseteq> set ps \<and> (node = dst \<and> path \<noteq> [] \<longrightarrow> path \<in> set ps)"
proof (induction d arbitrary: node path vals paths ps)
  case 0
  then show ?case by simp
next
  case (Suc d)
  let ?js = "filter (\<lambda>i. src_node (vals ! i) = node) [0..<length vals]"
  let ?paths = "if node = dst \<and> length path > 0 then paths @ [path] else paths"
  have l: "walk_loop (walk_local d dst cls) cls path vals ?js ?paths = Inr ps"
    using Suc.prems by simp
  have "set ?paths \<subseteq> set ps"
  proof (rule walk_loop_grows [OF _ l])
    fix node' path' vals' pa r
    assume "walk_local d dst cls node' path' vals' pa = Inr r"
    then show "set pa \<subseteq> set r" using Suc.IH by blast
  qed
  then show ?case by (auto split: if_splits)
qed

lemma walk_loop_branch:
  assumes g: "\<And>node' path' vals' pa r. recurse node' path' vals' pa = Inr r \<Longrightarrow> set pa \<subseteq> set r"
    and "walk_loop recurse cls path vals js paths = Inr ps"
    and "i \<in> set js" and "\<not> arrived (vals ! i)"
    and "find (\<lambda>j. branch_eq (vals ! j) (vals ! i)) [0..<length vals] = Some j"
  shows "\<exists>pa r. recurse (dst_node (vals ! j))
             (path @ [(src_node (vals ! i), dst_node (vals ! i))]) (mark cls j vals) pa = Inr r
           \<and> set r \<subseteq> set ps"
  using assms(2,3)
proof (induction js arbitrary: paths)
  case Nil
  then show ?case by simp
next
  case (Cons k js)
  show ?case
  proof (cases "arrived (vals ! k)")
    case True
    then have "i \<noteq> k" using assms(4) by auto
    then have "i \<in> set js" using Cons.prems(2) by simp
    moreover have "walk_loop recurse cls path vals js paths = Inr ps"
      using Cons.prems(1) True by simp
    ultimately show ?thesis by (rule Cons.IH [rotated])
  next
    case False
    from Cons.prems(1) False obtain j' r where
      f: "find (\<lambda>j. branch_eq (vals ! j) (vals ! k)) [0..<length vals] = Some j'"
      and r: "recurse (dst_node (vals ! j'))
            (path @ [(src_node (vals ! k), dst_node (vals ! k))]) (mark cls j' vals) paths = Inr r"
      and l: "walk_loop recurse cls path vals js r = Inr ps"
      by (auto split: option.splits sum.splits)
    show ?thesis
    proof (cases "i = k")
      case True
      then have "j' = j" using f assms(5) by simp
      moreover have "set r \<subseteq> set ps" by (rule walk_loop_grows [OF _ l]) (rule g)
      ultimately show ?thesis using r True by blast
    next
      case False
      then have "i \<in> set js" using Cons.prems(2) by simp
      with l show ?thesis by (rule Cons.IH)
    qed
  qed
qed

lemma length_mark [simp]: "length (mark cls j vals) = length vals"
  by (simp add: mark_def)

lemma mark_ends:
  "i < length vals
   \<Longrightarrow> src_node (mark cls j vals ! i) = src_node (vals ! i)
     \<and> dst_node (mark cls j vals ! i) = dst_node (vals ! i)"
  by (simp add: mark_def)

lemma follows_bound:
  "follows cls node vals ks = Some x \<Longrightarrow> \<forall>i \<in> set ks. i < length vals"
proof (induction ks arbitrary: node vals)
  case Nil
  then show ?case by simp
next
  case (Cons i rest)
  from Cons.prems obtain j where
    i: "i < length vals"
    and r: "follows cls (dst_node (vals ! j)) (mark cls j vals) rest = Some x"
    by (auto split: if_splits option.splits)
  from Cons.IH [OF r] i show ?case by simp
qed

lemma walk_local_follows:
  "follows cls node vals ks = Some dst
   \<Longrightarrow> walk_local d dst cls node path vals paths = Inr ps
   \<Longrightarrow> path @ map (\<lambda>i. (src_node (vals ! i), dst_node (vals ! i))) ks \<noteq> []
   \<Longrightarrow> path @ map (\<lambda>i. (src_node (vals ! i), dst_node (vals ! i))) ks \<in> set ps"
proof (induction ks arbitrary: node vals path d paths ps)
  case Nil
  then have "node = dst" "path \<noteq> []" by simp_all
  then show ?case using walk_local_grows [OF Nil.prems(2)] by simp
next
  case (Cons i rest)
  from Cons.prems(1) obtain j where
    i: "i < length vals" "src_node (vals ! i) = node" "\<not> arrived (vals ! i)"
    and f: "find (\<lambda>j. branch_eq (vals ! j) (vals ! i)) [0..<length vals] = Some j"
    and r: "follows cls (dst_node (vals ! j)) (mark cls j vals) rest = Some dst"
    by (auto split: if_splits option.splits)
  from Cons.prems(2) obtain d' where d: "d = Suc d'" by (cases d) auto
  let ?js = "filter (\<lambda>i. src_node (vals ! i) = node) [0..<length vals]"
  let ?paths = "if node = dst \<and> length path > 0 then paths @ [path] else paths"
  let ?e = "(src_node (vals ! i), dst_node (vals ! i))"
  have l: "walk_loop (walk_local d' dst cls) cls path vals ?js ?paths = Inr ps"
    using Cons.prems(2) d by simp
  have m: "i \<in> set ?js" using i by simp
  have g: "set pa \<subseteq> set r" if "walk_local d' dst cls node' path' vals' pa = Inr r"
    for node' path' vals' pa r
    using walk_local_grows [OF that] by simp
  have "\<exists>pa r'. walk_local d' dst cls (dst_node (vals ! j)) (path @ [?e])
        (mark cls j vals) pa = Inr r' \<and> set r' \<subseteq> set ps"
    by (rule walk_loop_branch [OF _ l m i(3) f]) (rule g)
  then obtain pa r' where
    w: "walk_local d' dst cls (dst_node (vals ! j)) (path @ [?e]) (mark cls j vals) pa = Inr r'"
    and s: "set r' \<subseteq> set ps"
    by blast
  have "\<forall>k \<in> set rest. k < length vals"
    using follows_bound [OF r] by simp
  then have e: "map (\<lambda>i. (src_node (mark cls j vals ! i), dst_node (mark cls j vals ! i))) rest
      = map (\<lambda>i. (src_node (vals ! i), dst_node (vals ! i))) rest"
    by (simp add: mark_ends)
  have "(path @ [?e]) @ map (\<lambda>i. (src_node (mark cls j vals ! i),
      dst_node (mark cls j vals ! i))) rest \<in> set r'"
    by (rule Cons.IH [OF r w]) simp
  then have "(path @ [?e]) @ map (\<lambda>i. (src_node (vals ! i), dst_node (vals ! i))) rest
      \<in> set ps"
    using s unfolding e by (rule rev_subsetD)
  then show ?case by simp
qed

lemma find_upt_first:
  assumes "i < n" "P i" "\<And>j. j < n \<Longrightarrow> P j \<Longrightarrow> j = i"
  shows "find P [0..<n] = Some i"
proof -
  have none: "\<not> P j" if "j < i" for j
  proof
    assume "P j"
    moreover have "j < n" using that assms(1) by simp
    ultimately have "j = i" by (rule assms(3) [rotated])
    then show False using that by simp
  qed
  have "i < length [0..<n] \<and> P ([0..<n] ! i) \<and> i = [0..<n] ! i
      \<and> (\<forall>j < i. \<not> P ([0..<n] ! j))"
    using assms(1,2) none by simp
  then have "\<exists>k < length [0..<n]. P ([0..<n] ! k) \<and> i = [0..<n] ! k
      \<and> (\<forall>j < k. \<not> P ([0..<n] ! j))"
    by (rule exI [of _ i])
  then show ?thesis by (simp only: find_Some_iff)
qed

lemma find_self:
  assumes "distinct (map (\<lambda>b. (src_node b, dst_node b)) vals)" "i < length vals"
  shows "find (\<lambda>j. branch_eq (vals ! j) (vals ! i)) [0..<length vals] = Some i"
proof (rule find_upt_first [OF assms(2)])
  show "branch_eq (vals ! i) (vals ! i)" by (simp add: branch_eq_def)
  fix j assume j: "j < length vals" and e: "branch_eq (vals ! j) (vals ! i)"
  then have "map (\<lambda>b. (src_node b, dst_node b)) vals ! j
      = map (\<lambda>b. (src_node b, dst_node b)) vals ! i"
    using assms(2) by (simp add: branch_eq_def)
  then show "j = i"
    using assms j by (simp add: nth_eq_iff_index_eq del: nth_map)
qed

lemma mark_self:
  assumes "distinct cls" "length cls = length vals" "i < length vals"
  shows "mark cls i vals = vals[i := (vals ! i)\<lparr>arrived := True\<rparr>]"
proof (rule nth_equalityI)
  show "length (mark cls i vals) = length (vals[i := (vals ! i)\<lparr>arrived := True\<rparr>])"
    by simp
  fix k assume "k < length (mark cls i vals)"
  then have k: "k < length vals" by simp
  have "(cls ! k = cls ! i) = (k = i)"
    using assms k by (simp add: nth_eq_iff_index_eq)
  then show "mark cls i vals ! k = vals[i := (vals ! i)\<lparr>arrived := True\<rparr>] ! k"
    using k assms(3) by (simp add: mark_def nth_list_update)
qed

lemma update_ends:
  "i < length vals
   \<Longrightarrow> (src_node (vals[i := (vals ! i)\<lparr>arrived := True\<rparr>] ! k),
        dst_node (vals[i := (vals ! i)\<lparr>arrived := True\<rparr>] ! k))
       = (src_node (vals ! k), dst_node (vals ! k))"
  by (cases "k = i") simp_all

lemma edges_update:
  "i < length vals
   \<Longrightarrow> map (\<lambda>b. (src_node b, dst_node b)) (vals[i := (vals ! i)\<lparr>arrived := True\<rparr>])
       = map (\<lambda>b. (src_node b, dst_node b)) vals"
proof (rule nth_equalityI)
  show "length (map (\<lambda>b. (src_node b, dst_node b)) (vals[i := (vals ! i)\<lparr>arrived := True\<rparr>]))
      = length (map (\<lambda>b. (src_node b, dst_node b)) vals)"
    by simp
  fix k
  assume i: "i < length vals"
    and "k < length (map (\<lambda>b. (src_node b, dst_node b))
                       (vals[i := (vals ! i)\<lparr>arrived := True\<rparr>]))"
  then have "k < length vals" by simp
  then show "map (\<lambda>b. (src_node b, dst_node b)) (vals[i := (vals ! i)\<lparr>arrived := True\<rparr>]) ! k
      = map (\<lambda>b. (src_node b, dst_node b)) vals ! k"
    using update_ends [OF i, of k] by simp
qed

lemma trail_follows:
  assumes "distinct cls"
  shows "length cls = length vals
    \<Longrightarrow> distinct (map (\<lambda>b. (src_node b, dst_node b)) vals)
    \<Longrightarrow> is_walk node q \<Longrightarrow> distinct q
    \<Longrightarrow> \<forall>e \<in> set q. \<exists>k < length vals.
          (src_node (vals ! k), dst_node (vals ! k)) = e \<and> \<not> arrived (vals ! k)
    \<Longrightarrow> \<exists>ks. follows cls node vals ks = Some (if q = [] then node else snd (last q))
             \<and> map (\<lambda>i. (src_node (vals ! i), dst_node (vals ! i))) ks = q"
proof (induction q arbitrary: node vals)
  case Nil
  have "follows cls node vals [] = Some (if ([]::edge list) = [] then node else snd (last []))
      \<and> map (\<lambda>i. (src_node (vals ! i), dst_node (vals ! i))) [] = []"
    by simp
  then show ?case by (rule exI)
next
  case (Cons e q)
  from Cons.prems(5) obtain k where
    k: "k < length vals" "(src_node (vals ! k), dst_node (vals ! k)) = e" "\<not> arrived (vals ! k)"
    by auto
  let ?vals = "vals[k := (vals ! k)\<lparr>arrived := True\<rparr>]"
  have n: "src_node (vals ! k) = node" "dst_node (vals ! k) = snd e"
    using Cons.prems(3) k(2) by auto
  have f: "find (\<lambda>j. branch_eq (vals ! j) (vals ! k)) [0..<length vals] = Some k"
    by (rule find_self [OF Cons.prems(2) k(1)])
  have m: "mark cls k vals = ?vals"
    by (rule mark_self [OF assms Cons.prems(1) k(1)])
  have 1: "length cls = length ?vals" using Cons.prems(1) by simp
  have 2: "distinct (map (\<lambda>b. (src_node b, dst_node b)) ?vals)"
    using Cons.prems(2) k(1) by (simp only: edges_update)
  have 3: "is_walk (snd e) q" using Cons.prems(3) by simp
  have 4: "distinct q" using Cons.prems(4) by simp
  have 5: "\<forall>e' \<in> set q. \<exists>k' < length ?vals.
      (src_node (?vals ! k'), dst_node (?vals ! k')) = e' \<and> \<not> arrived (?vals ! k')"
  proof
    fix e' assume e': "e' \<in> set q"
    then obtain k' where
      k': "k' < length vals" "(src_node (vals ! k'), dst_node (vals ! k')) = e'"
        "\<not> arrived (vals ! k')"
      using Cons.prems(5) by auto
    have "e' \<noteq> e" using e' Cons.prems(4) by auto
    then have "k' \<noteq> k" using k(2) k'(2) by auto
    then have "k' < length ?vals
        \<and> (src_node (?vals ! k'), dst_node (?vals ! k')) = e' \<and> \<not> arrived (?vals ! k')"
      using k' by simp
    then show "\<exists>k' < length ?vals.
        (src_node (?vals ! k'), dst_node (?vals ! k')) = e' \<and> \<not> arrived (?vals ! k')"
      by (rule exI)
  qed
  from Cons.IH [OF 1 2 3 4 5] obtain ks where
    ks: "follows cls (snd e) ?vals ks = Some (if q = [] then snd e else snd (last q))"
      "map (\<lambda>i. (src_node (?vals ! i), dst_node (?vals ! i))) ks = q"
    by blast
  have a: "map (\<lambda>i. (src_node (vals ! i), dst_node (vals ! i))) ks = q"
    using ks(2) by (simp only: update_ends [OF k(1)])
  have "follows cls node vals (k # ks) = Some (if q = [] then snd e else snd (last q))"
    using k(1,3) n f m ks(1) by simp
  moreover have "map (\<lambda>i. (src_node (vals ! i), dst_node (vals ! i))) (k # ks) = e # q"
    using a k(2) by simp
  ultimately have "follows cls node vals (k # ks)
        = Some (if e # q = [] then node else snd (last (e # q)))
      \<and> map (\<lambda>i. (src_node (vals ! i), dst_node (vals ! i))) (k # ks) = e # q"
    by simp
  then show ?case by (rule exI)
qed

lemma is_walk_append:
  "is_walk a (q1 @ q2) = (is_walk a q1 \<and> is_walk (if q1 = [] then a else snd (last q1)) q2)"
  by (induction q1 arbitrary: a) auto

lemma distinct_alias_classes: "distinct rs \<Longrightarrow> distinct (alias_classes rs)"
  unfolding alias_classes_def distinct_map
  by (auto intro!: inj_onI dest: position_inj)

lemma search_follows:
  assumes "search depth h branches src dst = Inr (h', paths)" and "valid_refs h branches"
    and "follows (alias_classes branches) src (map ((!) h) branches) ks = Some dst"
    and "ks \<noteq> []"
  shows "map (\<lambda>i. edge_of h (branches ! i)) ks \<in> set (map (map (edge_of h')) paths)"
proof -
  let ?vals = "map ((!) h) branches"
  from search_refines [OF assms(1,2)] have
    w: "walk_local depth dst (alias_classes branches) src [] ?vals []
          = Inr (map (map (edge_of h')) paths)"
    by blast
  have b: "\<forall>i \<in> set ks. i < length branches"
    using follows_bound [OF assms(3)] by simp
  have "[] @ map (\<lambda>i. (src_node (?vals ! i), dst_node (?vals ! i))) ks
      \<in> set (map (map (edge_of h')) paths)"
    using assms(4) by (intro walk_local_follows [OF assms(3) w]) simp
  moreover have "map (\<lambda>i. (src_node (?vals ! i), dst_node (?vals ! i))) ks
      = map (\<lambda>i. edge_of h (branches ! i)) ks"
    using b by (simp add: edge_of_def)
  ultimately show ?thesis by simp
qed

lemma search_trails:
  assumes s: "search depth h branches src dst = Inr (h', paths)" and v: "valid_refs h branches"
    and d: "distinct branches" "distinct (map (edge_of h) branches)"
    and u: "list_all (\<lambda>b. \<not> arrived (h ! b)) branches"
    and t: "trail (map (edge_of h) branches) src dst q"
  shows "q \<in> set (map (map (edge_of h')) paths)"
proof -
  let ?vals = "map ((!) h) branches"
  have e: "map (\<lambda>b. (src_node b, dst_node b)) ?vals = map (edge_of h) branches"
    by (simp add: edge_of_def)
  from t have q: "q \<noteq> []" "is_walk src q" "snd (last q) = dst" "distinct q"
    "set q \<subseteq> set (map (edge_of h) branches)"
    by (simp_all add: trail_def)
  have un: "\<forall>x \<in> set q. \<exists>k < length ?vals.
      (src_node (?vals ! k), dst_node (?vals ! k)) = x \<and> \<not> arrived (?vals ! k)"
  proof
    fix x assume "x \<in> set q"
    then have "x \<in> set (map (edge_of h) branches)" using q(5) by blast
    then obtain k where k: "k < length branches" "edge_of h (branches ! k) = x"
      by (auto simp: in_set_conv_nth)
    moreover have "\<not> arrived (h ! (branches ! k))"
      using u k(1) by (simp add: list_all_length)
    ultimately have "k < length ?vals
        \<and> (src_node (?vals ! k), dst_node (?vals ! k)) = x \<and> \<not> arrived (?vals ! k)"
      by (simp add: edge_of_def)
    then show "\<exists>k < length ?vals.
        (src_node (?vals ! k), dst_node (?vals ! k)) = x \<and> \<not> arrived (?vals ! k)"
      by (rule exI)
  qed
  have l: "length (alias_classes branches) = length ?vals" by simp
  have de: "distinct (map (\<lambda>b. (src_node b, dst_node b)) ?vals)"
    using d(2) by (simp only: e)
  from trail_follows [OF distinct_alias_classes [OF d(1)] l de q(2) q(4) un] obtain ks where
    ks: "follows (alias_classes branches) src ?vals ks
           = Some (if q = [] then src else snd (last q))"
      "map (\<lambda>i. (src_node (?vals ! i), dst_node (?vals ! i))) ks = q"
    by blast
  have f: "follows (alias_classes branches) src ?vals ks = Some dst"
    using ks(1) q(1,3) by simp
  have n: "ks \<noteq> []" using ks(2) q(1) by auto
  have b: "\<forall>i \<in> set ks. i < length branches"
    using follows_bound [OF f] by simp
  have "map (\<lambda>i. edge_of h (branches ! i)) ks
      = map (\<lambda>i. (src_node (?vals ! i), dst_node (?vals ! i))) ks"
    using b by (simp add: edge_of_def)
  then have "map (\<lambda>i. edge_of h (branches ! i)) ks = q" using ks(2) by simp
  then show ?thesis using search_follows [OF s v f n] by simp
qed

lemma unarrived_update:
  assumes "i < length vals" "\<not> arrived (vals ! i)"
  shows "card {k. k < length (vals[i := (vals ! i)\<lparr>arrived := True\<rparr>])
                  \<and> \<not> arrived (vals[i := (vals ! i)\<lparr>arrived := True\<rparr>] ! k)}
         < card {k. k < length vals \<and> \<not> arrived (vals ! k)}"
proof (rule psubset_card_mono)
  show "finite {k. k < length vals \<and> \<not> arrived (vals ! k)}" by simp
  have "i \<in> {k. k < length vals \<and> \<not> arrived (vals ! k)}" using assms by simp
  moreover have "i \<notin> {k. k < length (vals[i := (vals ! i)\<lparr>arrived := True\<rparr>])
                  \<and> \<not> arrived (vals[i := (vals ! i)\<lparr>arrived := True\<rparr>] ! k)}"
    using assms by simp
  moreover have "{k. k < length (vals[i := (vals ! i)\<lparr>arrived := True\<rparr>])
                  \<and> \<not> arrived (vals[i := (vals ! i)\<lparr>arrived := True\<rparr>] ! k)}
      \<subseteq> {k. k < length vals \<and> \<not> arrived (vals ! k)}"
  proof
    fix k
    assume "k \<in> {k. k < length (vals[i := (vals ! i)\<lparr>arrived := True\<rparr>])
                  \<and> \<not> arrived (vals[i := (vals ! i)\<lparr>arrived := True\<rparr>] ! k)}"
    then have k: "k < length vals"
      and a: "\<not> arrived (vals[i := (vals ! i)\<lparr>arrived := True\<rparr>] ! k)"
      by simp_all
    have "k \<noteq> i" using a k by auto
    then have "\<not> arrived (vals ! k)" using a by simp
    then show "k \<in> {k. k < length vals \<and> \<not> arrived (vals ! k)}" using k by simp
  qed
  ultimately show "{k. k < length (vals[i := (vals ! i)\<lparr>arrived := True\<rparr>])
                  \<and> \<not> arrived (vals[i := (vals ! i)\<lparr>arrived := True\<rparr>] ! k)}
      \<subset> {k. k < length vals \<and> \<not> arrived (vals ! k)}"
    by blast
qed

lemma walk_loop_returns:
  assumes c: "distinct cls" "length cls = length vals"
    "distinct (map (\<lambda>b. (src_node b, dst_node b)) vals)"
    and r: "\<And>i pa. i < length vals \<Longrightarrow> \<not> arrived (vals ! i)
        \<Longrightarrow> \<exists>ps. recurse (dst_node (vals ! i))
               (path @ [(src_node (vals ! i), dst_node (vals ! i))])
               (vals[i := (vals ! i)\<lparr>arrived := True\<rparr>]) pa = Inr ps"
  shows "\<forall>i \<in> set js. i < length vals
    \<Longrightarrow> \<exists>ps. walk_loop recurse cls path vals js paths = Inr ps"
proof (induction js arbitrary: paths)
  case Nil
  then show ?case by simp
next
  case (Cons i js)
  then have i: "i < length vals" and js: "\<forall>i \<in> set js. i < length vals" by simp_all
  show ?case
  proof (cases "arrived (vals ! i)")
    case True
    then show ?thesis using Cons.IH [OF js, of paths] by simp
  next
    case False
    have f: "find (\<lambda>j. branch_eq (vals ! j) (vals ! i)) [0..<length vals] = Some i"
      by (rule find_self [OF c(3) i])
    have m: "mark cls i vals = vals[i := (vals ! i)\<lparr>arrived := True\<rparr>]"
      by (rule mark_self [OF c(1,2) i])
    from r [OF i False, of paths] obtain ps1 where
      r1: "recurse (dst_node (vals ! i))
             (path @ [(src_node (vals ! i), dst_node (vals ! i))])
             (vals[i := (vals ! i)\<lparr>arrived := True\<rparr>]) paths = Inr ps1"
      by blast
    from Cons.IH [OF js, of ps1] obtain ps where
      "walk_loop recurse cls path vals js ps1 = Inr ps"
      by blast
    then have "walk_loop recurse cls path vals (i # js) paths = Inr ps"
      using False f m r1 by simp
    then show ?thesis by (rule exI)
  qed
qed

lemma walk_local_returns:
  assumes "distinct cls"
  shows "length cls = length vals
    \<Longrightarrow> distinct (map (\<lambda>b. (src_node b, dst_node b)) vals)
    \<Longrightarrow> card {k. k < length vals \<and> \<not> arrived (vals ! k)} < d
    \<Longrightarrow> \<exists>ps. walk_local d dst cls node path vals paths = Inr ps"
proof (induction d arbitrary: node path vals paths)
  case 0
  then show ?case by simp
next
  case (Suc d)
  let ?js = "filter (\<lambda>i. src_node (vals ! i) = node) [0..<length vals]"
  let ?paths = "if node = dst \<and> length path > 0 then paths @ [path] else paths"
  have "\<exists>ps. walk_loop (walk_local d dst cls) cls path vals ?js ?paths = Inr ps"
  proof (rule walk_loop_returns [OF assms Suc.prems(1,2)])
    show "\<forall>i \<in> set ?js. i < length vals" by simp
  next
    fix i pa
    assume i: "i < length vals" and a: "\<not> arrived (vals ! i)"
    let ?vals = "vals[i := (vals ! i)\<lparr>arrived := True\<rparr>]"
    have 1: "length cls = length ?vals" using Suc.prems(1) by simp
    have 2: "distinct (map (\<lambda>b. (src_node b, dst_node b)) ?vals)"
      using Suc.prems(2) i by (simp only: edges_update)
    have 3: "card {k. k < length ?vals \<and> \<not> arrived (?vals ! k)} < d"
      using unarrived_update [OF i a] Suc.prems(3) by simp
    show "\<exists>ps. walk_local d dst cls (dst_node (vals ! i))
        (path @ [(src_node (vals ! i), dst_node (vals ! i))]) ?vals pa = Inr ps"
      by (rule Suc.IH [OF 1 2 3])
  qed
  then show ?case by (simp only: walk_local.simps)
qed

lemma search_returns:
  assumes "valid_refs h branches" and "distinct branches"
    and "distinct (map (edge_of h) branches)" and "length branches < depth"
  shows "\<exists>h' paths. search depth h branches src dst = Inr (h', paths)"
proof -
  let ?vals = "map ((!) h) branches"
  have e: "map (\<lambda>b. (src_node b, dst_node b)) ?vals = map (edge_of h) branches"
    by (simp add: edge_of_def)
  have "card {k. k < length ?vals \<and> \<not> arrived (?vals ! k)} \<le> card {k. k < length ?vals}"
    by (rule card_mono) auto
  then have c: "card {k. k < length ?vals \<and> \<not> arrived (?vals ! k)} < depth"
    using assms(4) by simp
  have l: "length (alias_classes branches) = length ?vals" by simp
  have de: "distinct (map (\<lambda>b. (src_node b, dst_node b)) ?vals)"
    using assms(3) by (simp only: e)
  from walk_local_returns [OF distinct_alias_classes [OF assms(2)] l de c] obtain ps where
    w: "walk_local depth dst (alias_classes branches) src [] ?vals [] = Inr ps"
    by blast
  have "abstracts h [] (search depth h branches src dst)
        (walk_local depth dst (alias_classes branches) src [] ?vals [])"
    using search_local_refines [of h branches "[]" "[]" depth dst src] assms(1)
    by (simp add: search_def valid_refs_def)
  then show ?thesis
    using w by (cases "search depth h branches src dst") (auto simp: abstracts_def)
qed

text \<open>
  C3.  A returned path is never empty, even when source and destination are the same
  node, and the search does not stop at the destination.  Whenever the branches at some
  positions of the list can be taken one after the other from the source (each leaves the
  node reached so far and is not arrived, and taking it sets the first equal branch
  arrived) and the last one ends at the destination, the search returns this walk, whether
  or not it has passed through the destination before; and with a returned path that
  passes through the destination before its end, the walk up to there is returned as
  well, as a shorter path.  For a list of different branch objects with pairwise different
  ends, none arrived, and a recursion depth above the number of branches, the search
  returns: every non-empty walk from the source to the destination that takes no edge
  twice is among the returned paths, so with a walk \<open>q1\<close> to the destination and a walk
  \<open>q2\<close> from the destination back to it over other edges, both \<open>q1\<close> and the strictly
  longer \<open>q1 @ q2\<close> are returned.  On the cycle A -> B -> A the search from A to A
  returns the path A -> B, B -> A; on two cycles through A it returns each cycle and each
  cycle followed by the other.
\<close>

theorem search_records_and_continues:
  "(search depth h branches src dst = Inr (h', paths) \<and> valid_refs h branches
      \<longrightarrow> (\<forall>p \<in> set paths. 0 < length p)
          \<and> (\<forall>p \<in> set paths. \<forall>k. 0 < k \<and> k < length p
                \<and> dst_node (h' ! (p ! (k - 1))) = dst
                \<longrightarrow> (\<exists>p' \<in> set paths. length p' < length p
                       \<and> map (edge_of h') p' = take k (map (edge_of h') p)))
          \<and> (\<forall>ks. ks \<noteq> []
                \<and> follows (alias_classes branches) src (map ((!) h) branches) ks = Some dst
                \<longrightarrow> map (\<lambda>i. edge_of h (branches ! i)) ks
                      \<in> set (map (map (edge_of h')) paths)))
   \<and> (valid_refs h branches \<and> distinct branches \<and> distinct (map (edge_of h) branches)
        \<and> list_all (\<lambda>b. \<not> arrived (h ! b)) branches \<and> length branches < depth
      \<longrightarrow> (\<exists>h' paths. search depth h branches src dst = Inr (h', paths)
             \<and> (\<forall>q. trail (map (edge_of h) branches) src dst q
                   \<longrightarrow> q \<in> set (map (map (edge_of h')) paths))
             \<and> (\<forall>q1 q2. trail (map (edge_of h) branches) src dst q1
                   \<and> trail (map (edge_of h) branches) dst dst q2 \<and> distinct (q1 @ q2)
                   \<longrightarrow> (\<exists>p1 \<in> set paths. \<exists>p2 \<in> set paths.
                          map (edge_of h') p1 = q1 \<and> map (edge_of h') p2 = q1 @ q2
                          \<and> length p1 < length p2))))
   \<and> path_edges (search 10 cycle_store [0, 1] node_A node_A)
       = Inr [[(node_A, node_B), (node_B, node_A)]]
   \<and> path_edges (search 10 figure_eight_store [0, 1, 2, 3] node_A node_A)
       = Inr [[(node_A, node_B), (node_B, node_A)],
              [(node_A, node_B), (node_B, node_A), (node_A, node_C), (node_C, node_A)],
              [(node_A, node_C), (node_C, node_A)],
              [(node_A, node_C), (node_C, node_A), (node_A, node_B), (node_B, node_A)]]"
proof (intro conjI impI ballI allI)
  fix p
  assume a: "search depth h branches src dst = Inr (h', paths) \<and> valid_refs h branches"
    and p: "p \<in> set paths"
  show "0 < length p"
    using search_paths [of depth h branches src dst h' paths p] a p by simp
next
  fix p k
  assume a: "search depth h branches src dst = Inr (h', paths) \<and> valid_refs h branches"
    and p: "p \<in> set paths"
    and k: "0 < k \<and> k < length p \<and> dst_node (h' ! (p ! (k - 1))) = dst"
  from search_visits [of depth h branches src dst h' paths p k] a p k obtain p' where
    p': "p' \<in> set paths" "map (edge_of h') p' = take k (map (edge_of h') p)"
    by blast
  from p'(2) have "length p' = k"
    using k by (metis length_map length_take less_imp_le min.absorb2)
  then show "\<exists>p' \<in> set paths. length p' < length p
      \<and> map (edge_of h') p' = take k (map (edge_of h') p)"
    using p' k by blast
next
  fix ks
  assume a: "search depth h branches src dst = Inr (h', paths) \<and> valid_refs h branches"
    and k: "ks \<noteq> []
      \<and> follows (alias_classes branches) src (map ((!) h) branches) ks = Some dst"
  show "map (\<lambda>i. edge_of h (branches ! i)) ks \<in> set (map (map (edge_of h')) paths)"
    using search_follows [of depth h branches src dst h' paths ks] a k by simp
next
  let ?es = "map (edge_of h) branches"
  assume w: "valid_refs h branches \<and> distinct branches \<and> distinct (map (edge_of h) branches)
      \<and> list_all (\<lambda>b. \<not> arrived (h ! b)) branches \<and> length branches < depth"
  then have v: "valid_refs h branches"
    and d: "distinct branches" "distinct (map (edge_of h) branches)"
    and u: "list_all (\<lambda>b. \<not> arrived (h ! b)) branches"
    and l: "length branches < depth"
    by simp_all
  from search_returns [OF v d l] obtain h1 ps1 where
    s: "search depth h branches src dst = Inr (h1, ps1)"
    by blast
  have c: "q \<in> set (map (map (edge_of h1)) ps1)" if "trail ?es src dst q" for q
    by (rule search_trails [OF s v d u that])
  have e: "\<exists>p1 \<in> set ps1. \<exists>p2 \<in> set ps1.
      map (edge_of h1) p1 = q1 \<and> map (edge_of h1) p2 = q1 @ q2 \<and> length p1 < length p2"
    if t: "trail ?es src dst q1 \<and> trail ?es dst dst q2 \<and> distinct (q1 @ q2)" for q1 q2
  proof -
    from t have t1: "trail ?es src dst q1" by simp
    from t have q1: "q1 \<noteq> []" "is_walk src q1" "snd (last q1) = dst" "set q1 \<subseteq> set ?es"
      and q2: "q2 \<noteq> []" "is_walk dst q2" "snd (last q2) = dst" "set q2 \<subseteq> set ?es"
      and dd: "distinct (q1 @ q2)"
      by (simp_all add: trail_def)
    have "trail ?es src dst (q1 @ q2)"
      unfolding trail_def is_walk_append using q1 q2 dd by simp
    from c [OF this] obtain p2 where
      p2: "p2 \<in> set ps1" "map (edge_of h1) p2 = q1 @ q2"
      by auto
    from c [OF t1] obtain p1 where
      p1: "p1 \<in> set ps1" "map (edge_of h1) p1 = q1"
      by auto
    have "length (map (edge_of h1) p1) < length (map (edge_of h1) p2)"
      unfolding p1(2) p2(2) using q2(1) by simp
    then have "length p1 < length p2" by simp
    then show ?thesis using p1 p2 by blast
  qed
  have "search depth h branches src dst = Inr (h1, ps1)
      \<and> (\<forall>q. trail ?es src dst q \<longrightarrow> q \<in> set (map (map (edge_of h1)) ps1))
      \<and> (\<forall>q1 q2. trail ?es src dst q1 \<and> trail ?es dst dst q2 \<and> distinct (q1 @ q2)
            \<longrightarrow> (\<exists>p1 \<in> set ps1. \<exists>p2 \<in> set ps1.
                   map (edge_of h1) p1 = q1 \<and> map (edge_of h1) p2 = q1 @ q2
                   \<and> length p1 < length p2))"
    using s c e by blast
  then show "\<exists>h' paths. search depth h branches src dst = Inr (h', paths)
      \<and> (\<forall>q. trail ?es src dst q \<longrightarrow> q \<in> set (map (map (edge_of h')) paths))
      \<and> (\<forall>q1 q2. trail ?es src dst q1 \<and> trail ?es dst dst q2 \<and> distinct (q1 @ q2)
            \<longrightarrow> (\<exists>p1 \<in> set paths. \<exists>p2 \<in> set paths.
                   map (edge_of h') p1 = q1 \<and> map (edge_of h') p2 = q1 @ q2
                   \<and> length p1 < length p2))"
    by (intro exI)
next
  show "path_edges (search 10 cycle_store [0, 1] node_A node_A)
       = Inr [[(node_A, node_B), (node_B, node_A)]]"
    by code_simp
next
  show "path_edges (search 10 figure_eight_store [0, 1, 2, 3] node_A node_A)
       = Inr [[(node_A, node_B), (node_B, node_A)],
              [(node_A, node_B), (node_B, node_A), (node_A, node_C), (node_C, node_A)],
              [(node_A, node_C), (node_C, node_A)],
              [(node_A, node_C), (node_C, node_A), (node_A, node_B), (node_B, node_A)]]"
    by code_simp
qed

theorem search_records_and_continues_witness:
  "0 < length (snd (projr (search 10 figure_eight_store [0, 1, 2, 3] node_A node_A)) ! 1)
   \<and> (\<exists>p' \<in> set (snd (projr (search 10 figure_eight_store [0, 1, 2, 3] node_A node_A))).
         length p'
           < length (snd (projr (search 10 figure_eight_store [0, 1, 2, 3] node_A node_A)) ! 1)
         \<and> map (edge_of (fst (projr (search 10 figure_eight_store [0, 1, 2, 3]
                                       node_A node_A)))) p'
             = [(node_A, node_B), (node_B, node_A)])
   \<and> follows (alias_classes [0, 1, 2, 3]) node_A (map ((!) figure_eight_store) [0, 1, 2, 3])
         [0, 1, 2, 3] = Some node_A
   \<and> [(node_A, node_B), (node_B, node_A), (node_A, node_C), (node_C, node_A)]
       \<in> set (map (map (edge_of (fst (projr (search 10 figure_eight_store [0, 1, 2, 3]
                                                node_A node_A)))))
                (snd (projr (search 10 figure_eight_store [0, 1, 2, 3] node_A node_A))))
   \<and> (\<exists>h' paths. search 10 figure_eight_store [0, 1, 2, 3] node_A node_A = Inr (h', paths)
         \<and> [(node_A, node_C), (node_C, node_A), (node_A, node_B), (node_B, node_A)]
             \<in> set (map (map (edge_of h')) paths)
         \<and> (\<exists>p1 \<in> set paths. \<exists>p2 \<in> set paths.
               map (edge_of h') p1 = [(node_A, node_B), (node_B, node_A)]
               \<and> map (edge_of h') p2
                   = [(node_A, node_B), (node_B, node_A)] @ [(node_A, node_C), (node_C, node_A)]
               \<and> length p1 < length p2))"
proof -
  let ?R = "search 10 figure_eight_store [0, 1, 2, 3] node_A node_A"
  let ?h = "fst (projr ?R)"
  let ?ps = "snd (projr ?R)"
  let ?es = "map (edge_of figure_eight_store) [0, 1, 2, 3]"
  have "\<not> isl ?R" by code_simp
  then have r: "?R = Inr (?h, ?ps)" by (cases ?R) auto
  have v: "valid_refs figure_eight_store [0, 1, 2, 3]"
    by (simp add: valid_refs_def figure_eight_store_def)
  have m: "?ps ! 1 \<in> set ?ps" by code_simp
  have k: "0 < (2::nat) \<and> 2 < length (?ps ! 1) \<and> dst_node (?h ! (?ps ! 1 ! (2 - 1))) = node_A"
    by code_simp
  have e: "take 2 (map (edge_of ?h) (?ps ! 1)) = [(node_A, node_B), (node_B, node_A)]"
    by code_simp
  have f: "[0, 1, 2, 3] \<noteq> ([]::nat list)
      \<and> follows (alias_classes [0, 1, 2, 3]) node_A (map ((!) figure_eight_store) [0, 1, 2, 3])
          [0, 1, 2, 3] = Some node_A"
    by code_simp
  have g: "map (\<lambda>i. edge_of figure_eight_store ([0, 1, 2, 3] ! i)) [0, 1, 2, 3]
      = [(node_A, node_B), (node_B, node_A), (node_A, node_C), (node_C, node_A)]"
    by code_simp
  have w: "valid_refs figure_eight_store [0, 1, 2, 3] \<and> distinct [0, 1, 2, 3::nat]
      \<and> distinct ?es \<and> list_all (\<lambda>b. \<not> arrived (figure_eight_store ! b)) [0, 1, 2, 3]
      \<and> length [0, 1, 2, 3::nat] < 10"
    by code_simp
  have t1: "trail ?es node_A node_A
      [(node_A, node_C), (node_C, node_A), (node_A, node_B), (node_B, node_A)]"
    by code_simp
  have t2: "trail ?es node_A node_A [(node_A, node_B), (node_B, node_A)]
      \<and> trail ?es node_A node_A [(node_A, node_C), (node_C, node_A)]
      \<and> distinct ([(node_A, node_B), (node_B, node_A)] @ [(node_A, node_C), (node_C, node_A)])"
    by code_simp
  note t = search_records_and_continues [where depth = 10 and h = figure_eight_store
      and branches = "[0, 1, 2, 3]" and src = node_A and dst = node_A and h' = ?h
      and paths = ?ps]
  note a = t [THEN conjunct1, THEN mp, OF conjI [OF r v]]
  note 1 = a [THEN conjunct1, THEN bspec, OF m]
  note 2 = a [THEN conjunct2, THEN conjunct1, THEN bspec, OF m, THEN spec, of 2, THEN mp, OF k]
  note 3 = a [THEN conjunct2, THEN conjunct2, THEN spec, of "[0, 1, 2, 3]", THEN mp, OF f]
  note b = t [THEN conjunct2, THEN conjunct1, THEN mp, OF w]
  from b obtain h1 ps1 where
    s: "search 10 figure_eight_store [0, 1, 2, 3] node_A node_A = Inr (h1, ps1)"
    and c: "\<forall>q. trail ?es node_A node_A q \<longrightarrow> q \<in> set (map (map (edge_of h1)) ps1)"
    and d: "\<forall>q1 q2. trail ?es node_A node_A q1 \<and> trail ?es node_A node_A q2
          \<and> distinct (q1 @ q2)
        \<longrightarrow> (\<exists>p1 \<in> set ps1. \<exists>p2 \<in> set ps1.
               map (edge_of h1) p1 = q1 \<and> map (edge_of h1) p2 = q1 @ q2
               \<and> length p1 < length p2)"
    by (elim exE conjE)
  note 4 = c [THEN spec, THEN mp, OF t1]
  note 5 = d [THEN spec, THEN spec, THEN mp, OF t2]
  have "search 10 figure_eight_store [0, 1, 2, 3] node_A node_A = Inr (h1, ps1)
      \<and> [(node_A, node_C), (node_C, node_A), (node_A, node_B), (node_B, node_A)]
          \<in> set (map (map (edge_of h1)) ps1)
      \<and> (\<exists>p1 \<in> set ps1. \<exists>p2 \<in> set ps1.
            map (edge_of h1) p1 = [(node_A, node_B), (node_B, node_A)]
            \<and> map (edge_of h1) p2
                = [(node_A, node_B), (node_B, node_A)] @ [(node_A, node_C), (node_C, node_A)]
            \<and> length p1 < length p2)"
    by (intro conjI s 4 5)
  then have 6: "\<exists>h' paths. search 10 figure_eight_store [0, 1, 2, 3] node_A node_A
        = Inr (h', paths)
      \<and> [(node_A, node_C), (node_C, node_A), (node_A, node_B), (node_B, node_A)]
          \<in> set (map (map (edge_of h')) paths)
      \<and> (\<exists>p1 \<in> set paths. \<exists>p2 \<in> set paths.
            map (edge_of h') p1 = [(node_A, node_B), (node_B, node_A)]
            \<and> map (edge_of h') p2
                = [(node_A, node_B), (node_B, node_A)] @ [(node_A, node_C), (node_C, node_A)]
            \<and> length p1 < length p2)"
    by (intro exI)
  show ?thesis
    by (intro conjI 1 2 [unfolded e] f [THEN conjunct2] 3 [unfolded g] 6)
qed

end
